theory Spec2Isabelle
  imports Main
begin

section \<open>The program: \<^verbatim>\<open>myshell.c\<close>\<close>

text \<open>
  A shallow embedding of \<^verbatim>\<open>myshell.c\<close>. C strings are modelled as \<open>string\<close> values; a
  \<open>char*\<close> that walks through a string is the remaining suffix. C \<open>int\<close> variables that only
  ever hold a truth value (\<open>inquote\<close>, \<open>append\<close>, \<open>background\<close>, \<open>running\<close>) are
  \<open>bool\<close>.
\<close>

subsection \<open>Constants\<close>

definition MAX_TOKENS :: nat where
  "MAX_TOKENS = 256"

definition MAX_JOBS :: nat where
  "MAX_JOBS = 128"

subsection \<open>Characters and C strings\<close>

definition NUL :: char where
  "NUL = CHR 0x00"

text \<open>The bytes of a buffer that a C string function sees: everything before the first NUL.\<close>

definition c_str :: "string \<Rightarrow> string" where
  "c_str buf = takeWhile (\<lambda>c. c \<noteq> NUL) buf"

text \<open>\<^verbatim>\<open>*p == ' ' || *p == '\t' || *p == '\n'\<close>\<close>

definition is_space :: "char \<Rightarrow> bool" where
  "is_space c \<longleftrightarrow> c = CHR '' '' \<or> c = CHR 0x09 \<or> c = CHR 0x0A"

text \<open>\<^verbatim>\<open>*p == '>' || *p == '<' || *p == '|' || *p == '&'\<close>\<close>

definition is_operator_char :: "char \<Rightarrow> bool" where
  "is_operator_char c \<longleftrightarrow> c = CHR ''>'' \<or> c = CHR ''<'' \<or> c = CHR ''|'' \<or> c = CHR ''&''"

text \<open>\<^verbatim>\<open>*p == '\'' || *p == '"'\<close>\<close>

definition is_quote :: "char \<Rightarrow> bool" where
  "is_quote c \<longleftrightarrow> c = CHR 0x27 \<or> c = CHR 0x22"

subsection \<open>Tokenizer (\<^verbatim>\<open>tokenize\<close>, lines 85-129)\<close>

text \<open>
  The inner \<^verbatim>\<open>while (*p)\<close> loop of lines 106-114. The argument is the text at \<open>p\<close>; the
  result is the text between \<open>start\<close> and the final \<open>p\<close>, and the text at the final \<open>p\<close>.
\<close>

fun scan_word :: "bool \<Rightarrow> char \<Rightarrow> string \<Rightarrow> string \<times> string" where
  "scan_word inquote quotechar [] = ([], [])"
| "scan_word inquote quotechar (c # cs) =
    (if \<not> inquote \<and> is_space c then ([], c # cs)
     else if \<not> inquote \<and> is_quote c then apfst ((#) c) (scan_word True c cs)
     else if inquote \<and> c = quotechar then apfst ((#) c) (scan_word False NUL cs)
     else if \<not> inquote \<and> is_operator_char c then ([], c # cs)
     else apfst ((#) c) (scan_word inquote quotechar cs))"

text \<open>The copy loop of lines 118-122: every quote character of the scanned text is dropped.\<close>

definition strip_quotes :: "string \<Rightarrow> string" where
  "strip_quotes w = filter (\<lambda>c. \<not> is_quote c) w"

lemma scan_word_length: "length (snd (scan_word inquote quotechar s)) \<le> length s"
  by (induction inquote quotechar s rule: scan_word.induct) (auto simp: apfst_def map_prod_def split: prod.splits)

lemma scan_word_progress:
  "\<not> is_space c \<Longrightarrow> \<not> is_operator_char c \<Longrightarrow>
   length (snd (scan_word False quotechar (c # cs))) < Suc (length cs)"
  using scan_word_length [of True c cs] scan_word_length [of False quotechar cs]
  by (auto simp: less_Suc_eq_le)

text \<open>
  The outer loop of lines 90-125. \<open>p\<close> is the text at the pointer, \<open>tokens\<close> the entries
  \<open>tokens[0..n-1]\<close> written so far, so that \<open>n = length tokens\<close>.
\<close>

function tokenize_loop :: "int \<Rightarrow> string \<Rightarrow> string list \<Rightarrow> string list" where
  "tokenize_loop max_tokens p tokens =
    (if p \<noteq> [] \<and> int (length tokens) < max_tokens - 1 then
       (case dropWhile is_space p of
          [] \<Rightarrow> tokens
        | c # cs \<Rightarrow>
            if is_operator_char c then
              (if c = CHR ''>'' \<and> (case cs of [] \<Rightarrow> False | d # _ \<Rightarrow> d = CHR ''>'')
               then tokenize_loop max_tokens (tl cs) (tokens @ [''>>''])
               else tokenize_loop max_tokens cs (tokens @ [[c]]))
            else
              (case scan_word False NUL (c # cs) of
                 (w, rest) \<Rightarrow> tokenize_loop max_tokens rest (tokens @ [strip_quotes w])))
     else tokens)"
  by pat_completeness auto

lemma dropWhile_Cons_length: "dropWhile P p = c # cs \<Longrightarrow> length cs < length p"
  using length_dropWhile_le [of P p] by simp

lemma dropWhile_Cons_head: "dropWhile P p = c # cs \<Longrightarrow> \<not> P c"
  using hd_dropWhile [of P p] by auto

lemma scan_word_shorter:
  assumes "dropWhile is_space p = c # cs" and "\<not> is_operator_char c"
    and "scan_word False quotechar (c # cs) = (w, rest)"
  shows "length rest < length p"
proof -
  have "\<not> is_space c"
    using assms(1) by (rule dropWhile_Cons_head)
  then have "length (snd (scan_word False quotechar (c # cs))) < Suc (length cs)"
    using assms(2) by (rule scan_word_progress)
  then show ?thesis
    using assms(3) dropWhile_Cons_length [OF assms(1)] by simp
qed

termination tokenize_loop
  by (relation "measure (\<lambda>(m, p, ts). length p)")
    (auto dest: dropWhile_Cons_length scan_word_shorter scan_word_shorter [OF _ _ sym])

declare tokenize_loop.simps [simp del]

text \<open>\<^verbatim>\<open>tokenize(line, tokens, max_tokens)\<close> with every allocation succeeding; the returned count is
  the length of the result.\<close>

definition tokenize :: "string \<Rightarrow> int \<Rightarrow> string list" where
  "tokenize line max_tokens = tokenize_loop max_tokens (c_str line) []"

subsection \<open>Command parser (\<^verbatim>\<open>cmd_t\<close>, \<^verbatim>\<open>parse_commands\<close>, lines 137-186)\<close>

record cmd_t =
  argv :: "string list"
  infile :: "string option"
  outfile :: "string option"
  append :: bool

text \<open>A freshly initialised \<^verbatim>\<open>cmds[ci]\<close>: no arguments, both redirection pointers NULL.\<close>

definition empty_cmd :: cmd_t where
  "empty_cmd = \<lparr>argv = [], infile = None, outfile = None, append = False\<rparr>"

datatype parse_error = TooManySegments | InputNeedsFile | OutputNeedsFile

text \<open>
  The outcome of \<^verbatim>\<open>parse_commands\<close>: return value 0 with \<open>ncmds\<close> stages and the background
  flag; return value -1 after one of the three diagnostics; or a store past the end of
  \<^verbatim>\<open>argv[MAX_TOKENS]\<close>, which the C function does not guard against (its caller never passes
  enough tokens for that).
\<close>

datatype parse_result =
    Parsed "cmd_t list" bool
  | ParseError parse_error
  | ArgvOverrun

text \<open>
  The \<^verbatim>\<open>for\<close> loop of lines 156-182 over the tokens not yet consumed. \<open>stages\<close> holds
  \<^verbatim>\<open>cmds[0..ci-1]\<close>, \<open>cur\<close> is \<^verbatim>\<open>cmds[ci]\<close> and \<open>ai = length (argv cur)\<close>. Tokens are C
  strings, so \<^verbatim>\<open>strcmp(t, "|") == 0\<close> is equality of the token with \<open>|\<close>.
\<close>

fun parse_loop :: "string list \<Rightarrow> cmd_t list \<Rightarrow> cmd_t \<Rightarrow> bool \<Rightarrow> parse_result" where
  "parse_loop [] stages cur background =
    (if length (argv cur) < MAX_TOKENS then Parsed (stages @ [cur]) background else ArgvOverrun)"
| "parse_loop (t # ts) stages cur background =
    (if t = ''&'' then parse_loop ts stages cur True
     else if t = ''|'' then
       (if length (argv cur) < MAX_TOKENS then
          (if length stages + 1 \<ge> MAX_TOKENS then ParseError TooManySegments
           else parse_loop ts (stages @ [cur]) empty_cmd background)
        else ArgvOverrun)
     else if t = ''<'' then
       (case ts of
          [] \<Rightarrow> ParseError InputNeedsFile
        | f # ts' \<Rightarrow> parse_loop ts' stages (cur\<lparr>infile := Some f\<rparr>) background)
     else if t = ''>'' \<or> t = ''>>'' then
       (case ts of
          [] \<Rightarrow> ParseError OutputNeedsFile
        | f # ts' \<Rightarrow>
            parse_loop ts' stages (cur\<lparr>outfile := Some f, append := (t = ''>>'')\<rparr>) background)
     else
       (if length (argv cur) < MAX_TOKENS
        then parse_loop ts stages (cur\<lparr>argv := argv cur @ [t]\<rparr>) background
        else ArgvOverrun))"

definition parse_commands :: "string list \<Rightarrow> parse_result" where
  "parse_commands tokens = parse_loop tokens [] empty_cmd False"

subsection \<open>Job table (\<^verbatim>\<open>job_t\<close>, \<^verbatim>\<open>add_job\<close>, \<^verbatim>\<open>mark_job_done\<close>, lines 27-61)\<close>

text \<open>
  \<open>cmdline\<close> is the C string held in the 512-byte field. The field's last byte is never
  written (the table is static, \<^verbatim>\<open>strncpy\<close> is given \<open>sizeof - 1\<close>), so the string always ends
  inside the field.
\<close>

record job_t =
  pid :: int
  cmdline :: string
  running :: bool

text \<open>\<^verbatim>\<open>strncpy(dst, src, n)\<close> into a buffer whose byte \<open>n\<close> is zero: the C string left in \<open>dst\<close>.\<close>

definition strncpy :: "string \<Rightarrow> nat \<Rightarrow> string" where
  "strncpy src n = take n (c_str src)"

text \<open>
  What the child's wait status says through \<^verbatim>\<open>WIFEXITED\<close>/\<^verbatim>\<open>WEXITSTATUS\<close> and
  \<^verbatim>\<open>WIFSIGNALED\<close>/\<^verbatim>\<open>WTERMSIG\<close> (macros of the C library).
\<close>

datatype wait_status = Exited int | Signaled int | OtherStatus

text \<open>The lines the shell prints about jobs and failures, with the values of their
  conversions; \<open>JobListFull\<close>, \<open>Perror\<close> and \<open>ParseDiagnostic\<close> go to the error stream.\<close>

datatype message =
    JobStarted nat int
  | JobListFull
  | JobFinished nat int int string
  | JobKilled nat int int string
  | JobListed nat int string
  | Perror string
  | ParseDiagnostic parse_error

text \<open>The \<^verbatim>\<open>for\<close> loop of \<^verbatim>\<open>add_job\<close> from index \<open>i\<close> on.\<close>

function add_job_loop :: "nat \<Rightarrow> job_t list \<Rightarrow> int \<Rightarrow> string \<Rightarrow> job_t list \<times> message list" where
  "add_job_loop i jobs p line =
    (if i < MAX_JOBS then
       (if \<not> running (jobs ! i)
        then (jobs[i := \<lparr>pid = p, cmdline = strncpy line 511, running = True\<rparr>],
              [JobStarted (i + 1) p])
        else add_job_loop (i + 1) jobs p line)
     else (jobs, [JobListFull]))"
  by pat_completeness auto

termination add_job_loop
  by (relation "measure (\<lambda>(i, jobs, p, line). MAX_JOBS - i)") auto

declare add_job_loop.simps [simp del]

definition add_job :: "job_t list \<Rightarrow> int \<Rightarrow> string \<Rightarrow> job_t list \<times> message list" where
  "add_job jobs p line = add_job_loop 0 jobs p line"

text \<open>The \<^verbatim>\<open>for\<close> loop of \<^verbatim>\<open>mark_job_done\<close> from index \<open>i\<close> on.\<close>

function mark_job_done_loop ::
  "nat \<Rightarrow> job_t list \<Rightarrow> int \<Rightarrow> wait_status \<Rightarrow> job_t list \<times> message list" where
  "mark_job_done_loop i jobs p status =
    (if i < MAX_JOBS then
       (if running (jobs ! i) \<and> pid (jobs ! i) = p
        then (jobs[i := (jobs ! i)\<lparr>running := False\<rparr>],
              (case status of
                 Exited code \<Rightarrow> [JobFinished (i + 1) p code (cmdline (jobs ! i))]
               | Signaled sig \<Rightarrow> [JobKilled (i + 1) p sig (cmdline (jobs ! i))]
               | OtherStatus \<Rightarrow> []))
        else mark_job_done_loop (i + 1) jobs p status)
     else (jobs, []))"
  by pat_completeness auto

termination mark_job_done_loop
  by (relation "measure (\<lambda>(i, jobs, p, status). MAX_JOBS - i)") auto

declare mark_job_done_loop.simps [simp del]

definition mark_job_done :: "job_t list \<Rightarrow> int \<Rightarrow> wait_status \<Rightarrow> job_t list \<times> message list" where
  "mark_job_done jobs p status = mark_job_done_loop 0 jobs p status"

text \<open>The table as \<^verbatim>\<open>main\<close> initialises it: no slot running (static storage is zeroed).\<close>

definition initial_jobs :: "job_t list" where
  "initial_jobs = replicate MAX_JOBS \<lparr>pid = 0, cmdline = [], running = False\<rparr>"

subsection \<open>Process state\<close>

text \<open>
  What a descriptor of the shell or of a child refers to: something the shell had open
  before the pipeline at hand was started, an end of the pipe created for stage \<open>i\<close> of that
  pipeline, or a file opened for a redirection (with the append flag for an output file).
\<close>

datatype fd_object =
    Inherited nat
  | PipeRead nat
  | PipeWrite nat
  | FileIn string
  | FileOut string bool

type_synonym fd_table = "int \<Rightarrow> fd_object option"

text \<open>The state of the shell process that the modelled functions read or write.
  \<^verbatim>\<open>errno\<close> is followed through the signal handler only; what the other functions' system
  calls leave in it is not modelled.\<close>

record shell_state =
  errno :: int
  job_table :: "job_t list"
  printed :: "message list"
  cwd :: string
  fds :: fd_table

subsection \<open>Child reaper (\<^verbatim>\<open>sigchld_handler\<close>, lines 64-74)\<close>

text \<open>
  One call of \<^verbatim>\<open>waitpid(-1, &status, WNOHANG)\<close> as the handler sees it: the value returned,
  the status stored, and the value of \<^verbatim>\<open>errno\<close> after the call. \<open>print_errno\<close> is the value
  of \<^verbatim>\<open>errno\<close> after the \<^verbatim>\<open>printf\<close>/\<^verbatim>\<open>fflush\<close> calls of \<^verbatim>\<open>mark_job_done\<close> for that child.
\<close>

record wait_answer =
  wait_ret :: int
  wait_stat :: wait_status
  wait_errno :: int
  print_errno :: int

text \<open>
  The \<^verbatim>\<open>while (1)\<close> loop over the answers the system gives to the successive \<^verbatim>\<open>waitpid\<close>
  calls. The handler returns at the first answer that is not a positive pid; a list that
  ends before such an answer stands for a handler that has not returned yet (\<open>None\<close>).
\<close>

fun reap_loop :: "shell_state \<Rightarrow> wait_answer list \<Rightarrow> shell_state option" where
  "reap_loop s [] = None"
| "reap_loop s (a # answers) =
    (let s1 = s\<lparr>errno := wait_errno a\<rparr> in
     if wait_ret a \<le> 0 then Some s1
     else
       (case mark_job_done (job_table s1) (wait_ret a) (wait_stat a) of
          (jobs', msgs) \<Rightarrow>
            reap_loop (s1\<lparr>errno := print_errno a, job_table := jobs', printed := printed s1 @ msgs\<rparr>)
              answers))"

definition sigchld_handler :: "shell_state \<Rightarrow> wait_answer list \<Rightarrow> shell_state option" where
  "sigchld_handler s answers =
    (let saved_errno = errno s in
     case reap_loop s answers of
       None \<Rightarrow> None
     | Some s' \<Rightarrow> Some (s'\<lparr>errno := saved_errno\<rparr>))"

subsection \<open>The system as the shell meets it\<close>

text \<open>
  The answers of the operating system that the code branches on, as parameters: the
  descriptor limit of a process; whether \<^verbatim>\<open>pipe\<close> at stage \<open>i\<close> fails for a reason other than
  that limit; what \<^verbatim>\<open>fork\<close> at stage \<open>i\<close> returns in the parent (\<open>None\<close> for a negative value,
  else the child's pid); which paths \<^verbatim>\<open>open\<close> can read and write; \<^verbatim>\<open>getenv("HOME")\<close>; the
  directory \<^verbatim>\<open>chdir\<close> leads to from a given one, if it succeeds; and the outcomes of the
  successive foreground \<^verbatim>\<open>waitpid\<close> calls.
\<close>

datatype wait_result = WaitDone | WaitInterrupted | WaitFailed

record environment =
  nofile :: nat
  pipe_refused :: "nat \<Rightarrow> bool"
  fork_pid :: "nat \<Rightarrow> int option"
  readable :: "string \<Rightarrow> bool"
  writable :: "string \<Rightarrow> bool"
  home :: "string option"
  chdir_to :: "string \<Rightarrow> string \<Rightarrow> string option"
  foreground_waits :: "wait_result list"

subsection \<open>Descriptor system calls\<close>

text \<open>The lowest descriptor below the limit that is not open.\<close>

definition lowest_free :: "nat \<Rightarrow> fd_table \<Rightarrow> int option" where
  "lowest_free lim T = find (\<lambda>fd. T fd = None) (map int [0..<lim])"

definition sys_close :: "fd_table \<Rightarrow> int \<Rightarrow> fd_table" where
  "sys_close T fd = T(fd := None)"

text \<open>\<^verbatim>\<open>dup2(old, new)\<close>: fails without effect when \<open>old\<close> is not open or \<open>new\<close> is out of
  range, does nothing when both are the same, and otherwise makes \<open>new\<close> refer to what \<open>old\<close>
  refers to, closing what \<open>new\<close> referred to.\<close>

definition sys_dup2 :: "nat \<Rightarrow> fd_table \<Rightarrow> int \<Rightarrow> int \<Rightarrow> fd_table" where
  "sys_dup2 lim T old new =
    (if T old = None \<or> new < 0 \<or> int lim \<le> new then T
     else if old = new then T
     else T(new := T old))"

definition sys_open :: "nat \<Rightarrow> fd_table \<Rightarrow> fd_object \<Rightarrow> (int \<times> fd_table) option" where
  "sys_open lim T obj =
    (case lowest_free lim T of
       None \<Rightarrow> None
     | Some fd \<Rightarrow> Some (fd, T(fd \<mapsto> obj)))"

text \<open>\<^verbatim>\<open>pipe(pipe_fd)\<close> for stage \<open>i\<close>: the two lowest free descriptors, read end first.\<close>

definition sys_pipe :: "environment \<Rightarrow> nat \<Rightarrow> fd_table \<Rightarrow> ((int \<times> int) \<times> fd_table) option" where
  "sys_pipe env i T =
    (if pipe_refused env i then None
     else
       (case sys_open (nofile env) T (PipeRead i) of
          None \<Rightarrow> None
        | Some (r, T1) \<Rightarrow>
            (case sys_open (nofile env) T1 (PipeWrite i) of
               None \<Rightarrow> None
             | Some (w, T2) \<Rightarrow> Some ((r, w), T2))))"

subsection \<open>Builtins (\<^verbatim>\<open>run_builtin\<close>, lines 189-208)\<close>

text \<open>Return value 0, return value 1 with the state the builtin leaves, or \<^verbatim>\<open>exit(0)\<close>.
  \<^verbatim>\<open>chdir\<close> with the NULL pointer of an unset \<^verbatim>\<open>HOME\<close> is taken to fail.\<close>

datatype builtin_result =
    NotBuiltin
  | BuiltinDone shell_state
  | ProcessExit int

text \<open>The lines of the \<^verbatim>\<open>jobs\<close> builtin: the running slots in slot order.\<close>

definition list_jobs :: "job_t list \<Rightarrow> message list" where
  "list_jobs jobs =
    map (\<lambda>i. JobListed (i + 1) (pid (jobs ! i)) (cmdline (jobs ! i)))
      (filter (\<lambda>i. running (jobs ! i)) [0..<MAX_JOBS])"

definition run_builtin :: "environment \<Rightarrow> shell_state \<Rightarrow> cmd_t \<Rightarrow> builtin_result" where
  "run_builtin env s c =
    (case argv c of
       [] \<Rightarrow> NotBuiltin
     | a0 # args \<Rightarrow>
         if a0 = ''cd'' then
           (case (case args of [] \<Rightarrow> home env | a1 # _ \<Rightarrow> Some a1) of
              None \<Rightarrow> BuiltinDone (s\<lparr>printed := printed s @ [Perror ''cd'']\<rparr>)
            | Some dir \<Rightarrow>
                (case chdir_to env (cwd s) dir of
                   None \<Rightarrow> BuiltinDone (s\<lparr>printed := printed s @ [Perror ''cd'']\<rparr>)
                 | Some d \<Rightarrow> BuiltinDone (s\<lparr>cwd := d\<rparr>)))
         else if a0 = ''exit'' then ProcessExit 0
         else if a0 = ''jobs'' then
           BuiltinDone (s\<lparr>printed := printed s @ list_jobs (job_table s)\<rparr>)
         else NotBuiltin)"

subsection \<open>Pipeline executor (\<^verbatim>\<open>execute_pipeline\<close>, lines 212-289)\<close>

text \<open>What a forked child does: it leaves with a status before \<^verbatim>\<open>execvp\<close>, or it calls
  \<^verbatim>\<open>execvp\<close> with an argument vector, holding a descriptor table.\<close>

datatype child_outcome =
    ChildExits int
  | ChildExecs "string list" fd_table

text \<open>
  A redirection of the child (lines 245-258): \<^verbatim>\<open>open\<close>, \<^verbatim>\<open>dup2\<close> onto \<open>target\<close>, \<^verbatim>\<open>close\<close>;
  \<open>None\<close> when \<^verbatim>\<open>open\<close> fails, because the file cannot be opened (\<open>allowed\<close> is false) or no
  descriptor is free.
\<close>

definition redirect ::
  "environment \<Rightarrow> fd_table \<Rightarrow> bool \<Rightarrow> fd_object \<Rightarrow> int \<Rightarrow> fd_table option" where
  "redirect env T allowed obj target =
    (if \<not> allowed then None
     else
       (case sys_open (nofile env) T obj of
          None \<Rightarrow> None
        | Some (fd, T1) \<Rightarrow> Some (sys_close (sys_dup2 (nofile env) T1 fd target) fd)))"

text \<open>
  The child branch (lines 231-267) on its copy \<open>T\<close> of the parent's descriptors, with the
  parent's \<open>prev_fd\<close> and \<open>pipe_fd\<close> at the time of the \<^verbatim>\<open>fork\<close>. The child's signal
  setting and its diagnostics are left out.
\<close>

definition child_process ::
  "environment \<Rightarrow> cmd_t \<Rightarrow> int \<Rightarrow> int \<times> int \<Rightarrow> fd_table \<Rightarrow> child_outcome" where
  "child_process env c prev_fd pipe_fd T =
    (let T1 = (if prev_fd \<noteq> -1
               then sys_close (sys_dup2 (nofile env) T prev_fd 0) prev_fd else T);
         T2 = (if snd pipe_fd \<noteq> -1
               then sys_close (sys_dup2 (nofile env) T1 (snd pipe_fd) 1) (snd pipe_fd) else T1)
     in
       (case (case infile c of
                None \<Rightarrow> Some T2
              | Some path \<Rightarrow> redirect env T2 (readable env path) (FileIn path) 0) of
          None \<Rightarrow> ChildExits 1
        | Some T3 \<Rightarrow>
            (case (case outfile c of
                     None \<Rightarrow> Some T3
                   | Some path \<Rightarrow>
                       redirect env T3 (writable env path) (FileOut path (append c)) 1) of
               None \<Rightarrow> ChildExits 1
             | Some T4 \<Rightarrow>
                 (let T5 = (if fst pipe_fd \<noteq> -1 then sys_close T4 (fst pipe_fd) else T4)
                  in if argv c = [] then ChildExits 0 else ChildExecs (argv c) T5))))"

text \<open>The parent branch (lines 270-273) on the parent's descriptors: \<open>prev_fd\<close> and the
  write end of the new pipe are closed where there is one.\<close>

definition parent_branch :: "fd_table \<Rightarrow> int \<Rightarrow> int \<times> int \<Rightarrow> fd_table" where
  "parent_branch T prev_fd pipe_fd =
    (let T2 = (if prev_fd \<noteq> -1 then sys_close T prev_fd else T)
     in if snd pipe_fd \<noteq> -1 then sys_close T2 (snd pipe_fd) else T2)"

text \<open>One iteration of the parent's loop, as seen afterwards: the child forked for the
  stage, its pid, and the parent's descriptors and \<open>prev_fd\<close> at the end of the iteration.\<close>

record stage_report =
  child :: child_outcome
  child_pid :: int
  parent_fds :: fd_table
  parent_prev_fd :: int

datatype launch = AllLaunched int | PipeFailed | ForkFailed

text \<open>
  The \<^verbatim>\<open>for\<close> loop of lines 220-275 from stage \<open>i\<close> on, with the parent's \<open>prev_fd\<close>,
  descriptors and \<open>last_pid\<close>. The result lists the stages set up, says how the loop ended and
  gives the parent's descriptors at that point.
\<close>

function exec_stages ::
  "environment \<Rightarrow> cmd_t list \<Rightarrow> nat \<Rightarrow> int \<Rightarrow> fd_table \<Rightarrow> int
     \<Rightarrow> stage_report list \<times> launch \<times> fd_table" where
  "exec_stages env cmds i prev_fd T last_pid =
    (if i < length cmds then
       (case (if i < length cmds - 1 then sys_pipe env i T else Some ((-1, -1), T)) of
          None \<Rightarrow> ([], PipeFailed, T)
        | Some (pipe_fd, T1) \<Rightarrow>
            (case fork_pid env i of
               None \<Rightarrow> ([], ForkFailed, T1)
             | Some p \<Rightarrow>
                 (case exec_stages env cmds (i + 1) (fst pipe_fd)
                         (parent_branch T1 prev_fd pipe_fd) p of
                    (reports, result) \<Rightarrow>
                      (\<lparr>child = child_process env (cmds ! i) prev_fd pipe_fd T1,
                        child_pid = p, parent_fds = parent_branch T1 prev_fd pipe_fd,
                        parent_prev_fd = fst pipe_fd\<rparr>
                         # reports,
                       result))))
     else ([], AllLaunched last_pid, T))"
  by pat_completeness auto

termination exec_stages
  by (relation "measure (\<lambda>(env, cmds, i, prev_fd, T, last_pid). length cmds - i)") auto

declare exec_stages.simps [simp del]

text \<open>The foreground \<^verbatim>\<open>waitpid\<close> loop of lines 283-287: interrupted calls are retried;
  \<open>None\<close> when the answers end with the shell still retrying.\<close>

fun wait_foreground :: "wait_result list \<Rightarrow> message list option" where
  "wait_foreground [] = None"
| "wait_foreground (WaitDone # rs) = Some []"
| "wait_foreground (WaitInterrupted # rs) = wait_foreground rs"
| "wait_foreground (WaitFailed # rs) = Some [Perror ''waitpid'']"

text \<open>
  The outcome of \<^verbatim>\<open>execute_pipeline\<close>: a builtin ran in the shell, the shell left, or the
  stage loop ran, with the stages set up, the way the loop ended and the shell's state on
  return (\<open>None\<close> while the foreground wait has not returned).
\<close>

datatype exec_result =
    ExecBuiltin shell_state
  | ExecExit int
  | ExecPipeline "stage_report list" launch "shell_state option"

definition execute_pipeline ::
  "environment \<Rightarrow> shell_state \<Rightarrow> cmd_t list \<Rightarrow> bool \<Rightarrow> string \<Rightarrow> exec_result" where
  "execute_pipeline env s cmds background line =
    (case (if length cmds = 1 then run_builtin env s (cmds ! 0) else NotBuiltin) of
       BuiltinDone s' \<Rightarrow> ExecBuiltin s'
     | ProcessExit n \<Rightarrow> ExecExit n
     | NotBuiltin \<Rightarrow>
         (case exec_stages env cmds 0 (-1) (fds s) (-1) of
            (reports, PipeFailed, T) \<Rightarrow>
              ExecPipeline reports PipeFailed
                (Some (s\<lparr>fds := T, printed := printed s @ [Perror ''pipe'']\<rparr>))
          | (reports, ForkFailed, T) \<Rightarrow>
              ExecPipeline reports ForkFailed
                (Some (s\<lparr>fds := T, printed := printed s @ [Perror ''fork'']\<rparr>))
          | (reports, AllLaunched last_pid, T) \<Rightarrow>
              if background then
                (case add_job (job_table s) last_pid line of
                   (jobs', msgs) \<Rightarrow>
                     ExecPipeline reports (AllLaunched last_pid)
                       (Some (s\<lparr>fds := T, job_table := jobs', printed := printed s @ msgs\<rparr>)))
              else
                ExecPipeline reports (AllLaunched last_pid)
                  (map_option (\<lambda>msgs. s\<lparr>fds := T, printed := printed s @ msgs\<rparr>)
                     (wait_foreground (foreground_waits env)))))"

subsection \<open>One line of the main loop (\<^verbatim>\<open>main\<close>, lines 324-355)\<close>

text \<open>
  What the loop body does with a line: nothing; a diagnostic for a parse error; a store
  past the argument array; a builtin run in the shell; the shell's exit; or a call of
  \<^verbatim>\<open>execute_pipeline\<close>.
\<close>

datatype line_result =
    LineSkipped
  | LineRejected shell_state
  | LineUndefined
  | LineBuiltin shell_state
  | LineExit int
  | LineExecuted exec_result

text \<open>Lines 346-353: a single builtin is handled in the shell, anything else goes to
  \<^verbatim>\<open>execute_pipeline\<close>.\<close>

definition dispatch ::
  "environment \<Rightarrow> shell_state \<Rightarrow> cmd_t list \<Rightarrow> bool \<Rightarrow> string \<Rightarrow> line_result" where
  "dispatch env s cmds background line =
    (case (if length cmds = 1 then run_builtin env s (cmds ! 0) else NotBuiltin) of
       BuiltinDone s' \<Rightarrow> LineBuiltin s'
     | ProcessExit n \<Rightarrow> LineExit n
     | NotBuiltin \<Rightarrow> LineExecuted (execute_pipeline env s cmds background line))"

text \<open>Lines 335-355: the loop body once the line is tokenized.\<close>

definition run_tokens ::
  "environment \<Rightarrow> shell_state \<Rightarrow> string list \<Rightarrow> string \<Rightarrow> line_result" where
  "run_tokens env s tokens line =
    (if length tokens \<le> 0 then LineSkipped
     else
       (case parse_commands tokens of
          ParseError e \<Rightarrow> LineRejected (s\<lparr>printed := printed s @ [ParseDiagnostic e]\<rparr>)
        | ArgvOverrun \<Rightarrow> LineUndefined
        | Parsed cmds background \<Rightarrow> dispatch env s cmds background line))"

text \<open>Lines 324-334 and on: \<open>buf\<close> holds the bytes \<^verbatim>\<open>getline\<close> stored. A final newline is
  cut off, leading blanks and tabs are skipped, an empty rest is ignored.\<close>

definition shell_line :: "environment \<Rightarrow> shell_state \<Rightarrow> string \<Rightarrow> line_result" where
  "shell_line env s buf =
    (let line = c_str (if buf \<noteq> [] \<and> last buf = CHR 0x0A then butlast buf else buf);
         trim = dropWhile (\<lambda>c. c = CHR '' '' \<or> c = CHR 0x09) line
     in if trim = [] then LineSkipped
        else run_tokens env s (tokenize trim (int MAX_TOKENS)) trim)"

subsection \<open>Tokenizer with failing allocations\<close>

text \<open>
  \<^verbatim>\<open>tokenize\<close> again, now with \<^verbatim>\<open>strdup\<close> and \<^verbatim>\<open>malloc\<close> allowed to return NULL: \<open>alloc k\<close>
  says whether the allocation call number \<open>k\<close> of the run succeeds (call 0 is the copy of the
  line, call \<open>n + 1\<close> the allocation for token \<open>n\<close>). A token is \<open>None\<close> when a NULL pointer
  was stored in \<^verbatim>\<open>tokens[]\<close>. The run ends with the tokens stored (the count returned is
  their number), or in a store through the NULL pointer that \<^verbatim>\<open>malloc\<close> returned for a word
  (lines 121 and 123 write to \<^verbatim>\<open>tok\<close> unchecked).
\<close>

datatype tokenize_result =
    Tokens "string option list"
  | NullWrite

function tokenize_alloc_loop ::
  "(nat \<Rightarrow> bool) \<Rightarrow> int \<Rightarrow> string \<Rightarrow> string option list \<Rightarrow> tokenize_result" where
  "tokenize_alloc_loop alloc max_tokens p tokens =
    (if p \<noteq> [] \<and> int (length tokens) < max_tokens - 1 then
       (case dropWhile is_space p of
          [] \<Rightarrow> Tokens tokens
        | c # cs \<Rightarrow>
            if is_operator_char c then
              (if c = CHR ''>'' \<and> (case cs of [] \<Rightarrow> False | d # _ \<Rightarrow> d = CHR ''>'')
               then tokenize_alloc_loop alloc max_tokens (tl cs)
                      (tokens @ [if alloc (length tokens + 1) then Some ''>>'' else None])
               else tokenize_alloc_loop alloc max_tokens cs
                      (tokens @ [if alloc (length tokens + 1) then Some [c] else None]))
            else
              (case scan_word False NUL (c # cs) of
                 (w, rest) \<Rightarrow>
                   if alloc (length tokens + 1)
                   then tokenize_alloc_loop alloc max_tokens rest (tokens @ [Some (strip_quotes w)])
                   else NullWrite))
     else Tokens tokens)"
  by pat_completeness auto

termination tokenize_alloc_loop
  by (relation "measure (\<lambda>(a, m, p, ts). length p)")
    (auto dest: dropWhile_Cons_length scan_word_shorter scan_word_shorter [OF _ _ sym])

declare tokenize_alloc_loop.simps [simp del]

definition tokenize_alloc :: "(nat \<Rightarrow> bool) \<Rightarrow> string \<Rightarrow> int \<Rightarrow> tokenize_result" where
  "tokenize_alloc alloc line max_tokens =
    (if \<not> alloc 0 then Tokens []
     else tokenize_alloc_loop alloc max_tokens (c_str line) [])"

section \<open>Notions used in the statements\<close>

subsection \<open>Tokens, words and stages\<close>

text \<open>The five operator tokens, told from words by string comparison only.\<close>

definition is_operator_token :: "string \<Rightarrow> bool" where
  "is_operator_token t \<longleftrightarrow> t = ''|'' \<or> t = ''<'' \<or> t = ''>'' \<or> t = ''>>'' \<or> t = ''&''"

definition is_word_token :: "string \<Rightarrow> bool" where
  "is_word_token t \<longleftrightarrow> \<not> is_operator_token t"

text \<open>A character that neither ends a word nor is dropped from it.\<close>

definition is_plain_char :: "char \<Rightarrow> bool" where
  "is_plain_char c \<longleftrightarrow> \<not> is_space c \<and> \<not> is_operator_char c \<and> \<not> is_quote c"

text \<open>
  A piece of one word that leaves the scanner outside any quoted span: no whitespace and
  no operator character outside quotes, and every quote closed. \<open>q\<close> is the quote character
  of the span that is open at the start, if any.
\<close>

fun word_part :: "char option \<Rightarrow> string \<Rightarrow> bool" where
  "word_part q [] = (q = None)"
| "word_part q (c # cs) =
    (case q of
       Some qc \<Rightarrow> word_part (if c = qc then None else Some qc) cs
     | None \<Rightarrow>
         \<not> is_space c \<and> \<not> is_operator_char c \<and>
         word_part (if is_quote c then Some c else None) cs)"

text \<open>
  The loop of lines 90-125 without the bound \<^verbatim>\<open>n < max_tokens-1\<close>: the tokens of the text at
  \<open>p\<close>, however many there are. \<open>tokenize\<close> returns a prefix of them
  (\<open>tokenize_loop_all_tokens\<close> below).
\<close>

function all_tokens :: "string \<Rightarrow> string list" where
  "all_tokens p =
    (case dropWhile is_space p of
       [] \<Rightarrow> []
     | c # cs \<Rightarrow>
         if is_operator_char c then
           (if c = CHR ''>'' \<and> (case cs of [] \<Rightarrow> False | d # _ \<Rightarrow> d = CHR ''>'')
            then ''>>'' # all_tokens (tl cs)
            else [c] # all_tokens cs)
         else
           (case scan_word False NUL (c # cs) of
              (w, rest) \<Rightarrow> strip_quotes w # all_tokens rest))"
  by pat_completeness auto

termination all_tokens
  by (relation "measure length")
    (auto dest: dropWhile_Cons_length scan_word_shorter scan_word_shorter [OF _ _ sym])

declare all_tokens.simps [simp del]

text \<open>
  The specification's reading of a line without operators: the line is split at runs of
  whitespace, except inside a span opened by a quote character and closed by the same
  character. \<open>split_ws q w s\<close> splits \<open>s\<close>, where \<open>q\<close> is the quote character of the span that
  is open, if any, and \<open>w\<close> the word collected so far (a word in progress has at least one
  character; its quote characters are kept).
\<close>

fun split_ws :: "char option \<Rightarrow> string \<Rightarrow> string \<Rightarrow> string list" where
  "split_ws q w [] = (if w = [] then [] else [w])"
| "split_ws q w (c # cs) =
    (case q of
       Some qc \<Rightarrow> split_ws (if c = qc then None else Some qc) (w @ [c]) cs
     | None \<Rightarrow>
         if is_space c then (if w = [] then split_ws None [] cs else w # split_ws None [] cs)
         else split_ws (if is_quote c then Some c else None) (w @ [c]) cs)"

text \<open>
  Quote stripping as the specification describes it: the character that opens a span and
  the matching character that closes it are removed, what stands between them stays.
\<close>

fun unquote :: "char option \<Rightarrow> string \<Rightarrow> string" where
  "unquote q [] = []"
| "unquote q (c # cs) =
    (case q of
       Some qc \<Rightarrow> if c = qc then unquote None cs else c # unquote (Some qc) cs
     | None \<Rightarrow> if is_quote c then unquote (Some c) cs else c # unquote None cs)"

definition spec_words :: "string \<Rightarrow> string list" where
  "spec_words line = map (unquote None) (split_ws None [] line)"

text \<open>Every \<^verbatim>\<open>'\<close> and \<^verbatim>\<open>"\<close> character removed, wherever it stands; and the words of a line
  treated so.\<close>

definition without_quote_chars :: "string \<Rightarrow> string" where
  "without_quote_chars w = filter (\<lambda>c. c \<noteq> CHR 0x27 \<and> c \<noteq> CHR 0x22) w"

definition stripped_words :: "string \<Rightarrow> string list" where
  "stripped_words line = map without_quote_chars (split_ws None [] line)"

text \<open>No operator character stands outside a quoted span. \<open>q\<close> is the quote character of the
  span that is open at the start, if any.\<close>

fun operators_quoted :: "char option \<Rightarrow> string \<Rightarrow> bool" where
  "operators_quoted q [] = True"
| "operators_quoted q (c # cs) =
    (case q of
       Some qc \<Rightarrow> operators_quoted (if c = qc then None else Some qc) cs
     | None \<Rightarrow>
         \<not> is_operator_char c \<and> operators_quoted (if is_quote c then Some c else None) cs)"

text \<open>No quoted span holds a quote character (it would be one of the other kind).\<close>

fun spans_plain :: "char option \<Rightarrow> string \<Rightarrow> bool" where
  "spans_plain q [] = True"
| "spans_plain q (c # cs) =
    (case q of
       Some qc \<Rightarrow> if c = qc then spans_plain None cs else \<not> is_quote c \<and> spans_plain (Some qc) cs
     | None \<Rightarrow> spans_plain (if is_quote c then Some c else None) cs)"


subsection \<open>Pipe ends\<close>

text \<open>The descriptor is open on an end of a pipe of the pipeline at hand.\<close>

definition is_pipe_end :: "fd_object option \<Rightarrow> bool" where
  "is_pipe_end x =
    (case x of
       Some (PipeRead _) \<Rightarrow> True
     | Some (PipeWrite _) \<Rightarrow> True
     | _ \<Rightarrow> False)"

text \<open>
  The parent's descriptors between two iterations: if \<open>ok\<close>, the one pipe end it holds is
  the read end \<open>PipeRead j\<close>, at \<open>prev\<close>; otherwise it holds none and \<open>prev\<close> is \<open>-1\<close>.
\<close>

definition parent_inv :: "nat \<Rightarrow> bool \<Rightarrow> int \<Rightarrow> fd_table \<Rightarrow> bool" where
  "parent_inv j ok prev T \<longleftrightarrow>
    (\<forall>fd. is_pipe_end (T fd) \<longrightarrow> ok \<and> fd = prev \<and> T fd = Some (PipeRead j)) \<and>
    (if ok then prev \<noteq> -1 \<and> T prev = Some (PipeRead j) else prev = -1)"

text \<open>What a child may hold when it calls \<^verbatim>\<open>execvp\<close> as stage \<open>k\<close> of \<open>n\<close>.\<close>

definition child_ok :: "nat \<Rightarrow> nat \<Rightarrow> child_outcome \<Rightarrow> bool" where
  "child_ok n k outcome =
    (case outcome of
       ChildExits status \<Rightarrow> True
     | ChildExecs args Tc \<Rightarrow>
         (\<forall>fd. is_pipe_end (Tc fd) \<longrightarrow>
            (fd = 0 \<and> Tc fd = Some (PipeRead (k - 1)) \<and> 0 < k) \<or>
            (fd = 1 \<and> Tc fd = Some (PipeWrite k) \<and> k < n - 1)))"

subsection \<open>An example system\<close>

text \<open>A shell with the three standard descriptors open, no job running, and a system in
  which every call succeeds: stage \<open>i\<close> is forked with pid \<open>100 + i\<close>.\<close>

definition std_fds :: fd_table where
  "std_fds = [0 \<mapsto> Inherited 0, 1 \<mapsto> Inherited 1, 2 \<mapsto> Inherited 2]"

definition example_env :: environment where
  "example_env =
    \<lparr>nofile = 16, pipe_refused = (\<lambda>i. False), fork_pid = (\<lambda>i. Some (100 + int i)),
     readable = (\<lambda>path. True), writable = (\<lambda>path. True), home = Some ''/home/u'',
     chdir_to = (\<lambda>from dir. Some dir), foreground_waits = [WaitDone]\<rparr>"

definition example_shell :: shell_state where
  "example_shell =
    \<lparr>errno = 0, job_table = initial_jobs, printed = [], cwd = ''/'', fds = std_fds\<rparr>"

definition stage :: "string list \<Rightarrow> cmd_t" where
  "stage args = \<lparr>argv = args, infile = None, outfile = None, append = False\<rparr>"

subsection \<open>Outcomes of a line\<close>

text \<open>The names \<^verbatim>\<open>run_builtin\<close> compares the first argument with.\<close>

definition is_builtin_name :: "string \<Rightarrow> bool" where
  "is_builtin_name a \<longleftrightarrow> a = ''cd'' \<or> a = ''exit'' \<or> a = ''jobs''"

text \<open>The command ran inside the shell process.\<close>

definition handled_in_shell :: "line_result \<Rightarrow> bool" where
  "handled_in_shell r = (case r of LineBuiltin s \<Rightarrow> True | LineExit n \<Rightarrow> True | _ \<Rightarrow> False)"

text \<open>\<^verbatim>\<open>execute_pipeline\<close> was called and went into its stage loop.\<close>

definition passed_to_executor :: "line_result \<Rightarrow> bool" where
  "passed_to_executor r =
    (case r of LineExecuted (ExecPipeline reports result final) \<Rightarrow> True | _ \<Rightarrow> False)"

text \<open>The command line saved in slot \<open>i\<close> when \<^verbatim>\<open>execute_pipeline\<close> has returned.\<close>

definition saved_cmdline :: "exec_result \<Rightarrow> nat \<Rightarrow> string option" where
  "saved_cmdline r i =
    (case r of
       ExecPipeline reports result (Some s) \<Rightarrow> Some (cmdline (job_table s ! i))
     | _ \<Rightarrow> None)"


section \<open>Properties\<close>

subsection \<open>Operator tokens (C7)\<close>

lemma operator_char_not_space: "is_operator_char c \<Longrightarrow> \<not> is_space c"
  by (auto simp: is_operator_char_def is_space_def)

lemma scan_word_plain:
  "list_all is_plain_char w \<Longrightarrow>
   scan_word False quotechar (w @ r) = apfst ((@) w) (scan_word False quotechar r)"
  by (induction w) (auto simp: is_plain_char_def apfst_def map_prod_def split: prod.splits)

lemma scan_word_stop:
  "is_space c \<or> is_operator_char c \<Longrightarrow> scan_word False quotechar (c # r) = ([], c # r)"
  by (auto simp: is_space_def is_operator_char_def is_quote_def)

lemma strip_quotes_plain: "list_all is_plain_char w \<Longrightarrow> strip_quotes w = w"
  by (induction w) (auto simp: strip_quotes_def is_plain_char_def)

lemma tokenize_loop_double_gt:
  "int (length toks) < mx - 1 \<Longrightarrow>
   tokenize_loop mx (CHR ''>'' # CHR ''>'' # rest) toks = tokenize_loop mx rest (toks @ [''>>''])"
  by (subst tokenize_loop.simps) (simp add: is_space_def is_operator_char_def)

lemma tokenize_loop_single_op:
  assumes "int (length toks) < mx - 1" and "is_operator_char c"
    and "c \<noteq> CHR ''>'' \<or> take 1 rest \<noteq> ''>''"
  shows "tokenize_loop mx (c # rest) toks = tokenize_loop mx rest (toks @ [[c]])"
proof (cases "c = CHR ''>''")
  case False
  then show ?thesis
    using assms(1,2) operator_char_not_space [OF assms(2)]
    by (subst tokenize_loop.simps) simp
next
  case True
  show ?thesis
  proof (cases rest)
    case Nil
    then show ?thesis
      using assms(1,2) operator_char_not_space [OF assms(2)]
      by (subst tokenize_loop.simps) simp
  next
    case (Cons d ds)
    then have "d \<noteq> CHR ''>''"
      using assms(3) True by simp
    then show ?thesis
      using assms(1,2) operator_char_not_space [OF assms(2)] Cons
      by (subst tokenize_loop.simps) simp
  qed
qed

lemma tokenize_loop_word_then_op:
  assumes "int (length toks) < mx - 1" and "w \<noteq> []" and "list_all is_plain_char w"
    and "is_operator_char c"
  shows "tokenize_loop mx (w @ c # rest) toks = tokenize_loop mx (c # rest) (toks @ [w])"
proof -
  obtain a w' where w: "w = a # w'"
    using assms(2) by (cases w) auto
  have a: "\<not> is_space a" "\<not> is_operator_char a"
    using assms(3) by (auto simp: w is_plain_char_def)
  have "scan_word False NUL (w @ c # rest) = (w, c # rest)"
    using scan_word_plain [OF assms(3), of NUL "c # rest"] scan_word_stop [of c NUL rest] assms(4)
    by simp
  then show ?thesis
    using assms(1) a strip_quotes_plain [OF assms(3)]
    by (subst tokenize_loop.simps) (simp add: w)
qed

text \<open>
  C7. \<^verbatim>\<open>a>b\<close> tokenizes to \<open>a\<close>, \<open>>\<close>, \<open>b\<close> and \<^verbatim>\<open>a>>b\<close> to \<open>a\<close>, \<open>>>\<close>, \<open>b\<close>. In general,
  wherever the loop stands with room for another token: two \<open>>\<close> in a row are consumed as
  the one token \<open>>>\<close>, whatever follows; an operator character that is not a \<open>>\<close> followed
  by a second \<open>>\<close> is a one-character token, with one character consumed; and a word of plain
  characters directly followed by an operator character ends before it, the operator being
  read next.
\<close>

theorem tokenize_operators:
  "tokenize ''a>b'' (int MAX_TOKENS) = [''a'', ''>'', ''b''] \<and>
   tokenize ''a>>b'' (int MAX_TOKENS) = [''a'', ''>>'', ''b''] \<and>
   (int (length toks) < mx - 1 \<longrightarrow>
      tokenize_loop mx (CHR ''>'' # CHR ''>'' # rest) toks
        = tokenize_loop mx rest (toks @ [''>>'']) \<and>
      (is_operator_char c \<and> (c \<noteq> CHR ''>'' \<or> take 1 rest \<noteq> ''>'') \<longrightarrow>
         tokenize_loop mx (c # rest) toks = tokenize_loop mx rest (toks @ [[c]])) \<and>
      (w \<noteq> [] \<and> list_all is_plain_char w \<and> is_operator_char c \<longrightarrow>
         tokenize_loop mx (w @ c # rest) toks = tokenize_loop mx (c # rest) (toks @ [w])))"
proof -
  have "tokenize ''a>b'' (int MAX_TOKENS) = [''a'', ''>'', ''b'']"
    by code_simp
  moreover have "tokenize ''a>>b'' (int MAX_TOKENS) = [''a'', ''>>'', ''b'']"
    by code_simp
  ultimately show ?thesis
    using tokenize_loop_double_gt [of toks mx rest] tokenize_loop_single_op [of toks mx c rest]
      tokenize_loop_word_then_op [of toks mx w c rest]
    by blast
qed

theorem tokenize_operators_witness:
  "tokenize_loop 256 ''>>>b'' [''a''] = [''a'', ''>>'', ''>'', ''b''] \<and>
   tokenize_loop 256 ''>b'' [''a''] = [''a'', ''>'', ''b''] \<and>
   tokenize_loop 256 ''xy>b'' [''a''] = [''a'', ''xy'', ''>'', ''b'']"
proof -
  have h: "int (length [''a'']) < 256 - 1"
    by simp
  have c: "is_operator_char CHR ''>''" "list_all is_plain_char ''xy''" 
    by (simp_all add: is_operator_char_def is_plain_char_def is_space_def is_quote_def)
  have e: "tokenize_loop 256 ''>b'' ([''a''] @ [''>>'']) = [''a'', ''>>'', ''>'', ''b'']"
    "tokenize_loop 256 ''b'' ([''a''] @ [''>'']) = [''a'', ''>'', ''b'']"
    "tokenize_loop 256 ''>b'' ([''a''] @ [''xy'']) = [''a'', ''xy'', ''>'', ''b'']"
    by code_simp+
  show ?thesis
    using tokenize_operators [of "[''a'']" 256 "''>b''" "CHR ''>''" "''xy''"]
      tokenize_operators [of "[''a'']" 256 "''b''" "CHR ''>''" "''xy''"] h c e
    by simp
qed

subsection \<open>Redirections (C4)\<close>

lemma word_token_simps:
  "is_word_token t \<Longrightarrow> t \<noteq> ''&'' \<and> t \<noteq> ''|'' \<and> t \<noteq> ''<'' \<and> t \<noteq> ''>'' \<and> t \<noteq> ''>>''"
  by (auto simp: is_word_token_def is_operator_token_def)

text \<open>A run of word tokens is appended to the current stage's argument vector.\<close>

lemma parse_loop_words:
  "list_all is_word_token ws \<Longrightarrow> length (argv cur) + length ws \<le> MAX_TOKENS \<Longrightarrow>
   parse_loop (ws @ rest) stages cur bg = parse_loop rest stages (cur\<lparr>argv := argv cur @ ws\<rparr>) bg"
proof (induction ws arbitrary: cur)
  case Nil
  then show ?case by simp
next
  case (Cons t ws)
  have t: "t \<noteq> ''&''" "t \<noteq> ''|''" "t \<noteq> ''<''" "t \<noteq> ''>''" "t \<noteq> ''>>''"
    using Cons.prems(1) word_token_simps [of t] by simp_all
  have "parse_loop ((t # ws) @ rest) stages cur bg
      = parse_loop (ws @ rest) stages (cur\<lparr>argv := argv cur @ [t]\<rparr>) bg"
    using t Cons.prems(2) by simp
  also have "\<dots> = parse_loop rest stages
      (cur\<lparr>argv := argv cur @ [t]\<rparr>\<lparr>argv := argv (cur\<lparr>argv := argv cur @ [t]\<rparr>) @ ws\<rparr>) bg"
    using Cons.prems by (intro Cons.IH) auto
  finally show ?case by simp
qed

lemma parse_commands_redirect:
  assumes "list_all is_word_token pre" and "list_all is_word_token post"
    and "length pre + length post < MAX_TOKENS"
    and "parse_loop (op # f # post) [] (empty_cmd\<lparr>argv := pre\<rparr>) False
         = parse_loop post [] (upd (empty_cmd\<lparr>argv := pre\<rparr>)) False"
    and "argv (upd (empty_cmd\<lparr>argv := pre\<rparr>)) = pre"
  shows "parse_commands (pre @ op # f # post)
         = Parsed [(upd (empty_cmd\<lparr>argv := pre\<rparr>))\<lparr>argv := pre @ post\<rparr>] False"
proof -
  have "parse_commands (pre @ op # f # post)
      = parse_loop (op # f # post) [] (empty_cmd\<lparr>argv := pre\<rparr>) False"
    using assms(1,3) parse_loop_words [of pre empty_cmd "op # f # post" "[]" False]
    by (simp add: parse_commands_def empty_cmd_def)
  also have "\<dots> = parse_loop (post @ []) [] (upd (empty_cmd\<lparr>argv := pre\<rparr>)) False"
    using assms(4) by simp
  also have "\<dots> = parse_loop [] [] ((upd (empty_cmd\<lparr>argv := pre\<rparr>))\<lparr>argv := pre @ post\<rparr>) False"
    using assms(2,3,5) by (subst parse_loop_words) simp_all
  finally show ?thesis
    using assms(3) by simp
qed

lemma parse_commands_redirect_last:
  assumes "list_all is_word_token pre" and "length pre < MAX_TOKENS"
  shows "parse_commands (pre @ [op]) = parse_loop [op] [] (empty_cmd\<lparr>argv := pre\<rparr>) False"
  using assms parse_loop_words [of pre empty_cmd "[op]" "[]" False]
  by (simp add: parse_commands_def empty_cmd_def)

text \<open>
  C4, amended. Wherever the parser stands, a \<open><\<close> token takes the token right after it,
  whatever that token is, as the current stage's input path and goes on behind it; \<open>>\<close> and
  \<open>>>\<close> take it as the output path, the append flag being set exactly for \<open>>>\<close>. With no
  token after the operator the result is a parse error. For a whole line of word tokens around
  one redirection: the single stage has the words as its arguments and the token after the
  operator as its path; with the operator last, the parse fails.
\<close>

theorem parse_redirection:
  "parse_loop (''<'' # f # ts) stages cur bg = parse_loop ts stages (cur\<lparr>infile := Some f\<rparr>) bg \<and>
   parse_loop (''>'' # f # ts) stages cur bg
     = parse_loop ts stages (cur\<lparr>outfile := Some f, append := False\<rparr>) bg \<and>
   parse_loop (''>>'' # f # ts) stages cur bg
     = parse_loop ts stages (cur\<lparr>outfile := Some f, append := True\<rparr>) bg \<and>
   parse_loop [''<''] stages cur bg = ParseError InputNeedsFile \<and>
   parse_loop [''>''] stages cur bg = ParseError OutputNeedsFile \<and>
   parse_loop [''>>''] stages cur bg = ParseError OutputNeedsFile \<and>
   (list_all is_word_token pre \<and> list_all is_word_token post \<and>
    length pre + length post < MAX_TOKENS \<longrightarrow>
      parse_commands (pre @ ''<'' # f # post)
        = Parsed [\<lparr>argv = pre @ post, infile = Some f, outfile = None, append = False\<rparr>] False \<and>
      parse_commands (pre @ ''>'' # f # post)
        = Parsed [\<lparr>argv = pre @ post, infile = None, outfile = Some f, append = False\<rparr>] False \<and>
      parse_commands (pre @ ''>>'' # f # post)
        = Parsed [\<lparr>argv = pre @ post, infile = None, outfile = Some f, append = True\<rparr>] False \<and>
      parse_commands (pre @ [''<'']) = ParseError InputNeedsFile \<and>
      parse_commands (pre @ [''>'']) = ParseError OutputNeedsFile \<and>
      parse_commands (pre @ [''>>'']) = ParseError OutputNeedsFile)"
proof -
  have steps:
    "parse_loop (''<'' # f # ts) stages cur bg = parse_loop ts stages (cur\<lparr>infile := Some f\<rparr>) bg"
    "parse_loop (''>'' # f # ts) stages cur bg
       = parse_loop ts stages (cur\<lparr>outfile := Some f, append := False\<rparr>) bg"
    "parse_loop (''>>'' # f # ts) stages cur bg
       = parse_loop ts stages (cur\<lparr>outfile := Some f, append := True\<rparr>) bg"
    "parse_loop [''<''] stages cur bg = ParseError InputNeedsFile"
    "parse_loop [''>''] stages cur bg = ParseError OutputNeedsFile"
    "parse_loop [''>>''] stages cur bg = ParseError OutputNeedsFile"
    for ts stages cur bg
    by simp_all
  have whole: "parse_commands (pre @ ''<'' # f # post)
        = Parsed [\<lparr>argv = pre @ post, infile = Some f, outfile = None, append = False\<rparr>] False"
      "parse_commands (pre @ ''>'' # f # post)
        = Parsed [\<lparr>argv = pre @ post, infile = None, outfile = Some f, append = False\<rparr>] False"
      "parse_commands (pre @ ''>>'' # f # post)
        = Parsed [\<lparr>argv = pre @ post, infile = None, outfile = Some f, append = True\<rparr>] False"
      "parse_commands (pre @ [''<'']) = ParseError InputNeedsFile"
      "parse_commands (pre @ [''>'']) = ParseError OutputNeedsFile"
      "parse_commands (pre @ [''>>'']) = ParseError OutputNeedsFile"
    if h: "list_all is_word_token pre" "list_all is_word_token post"
      "length pre + length post < MAX_TOKENS"
  proof -
    show "parse_commands (pre @ ''<'' # f # post)
        = Parsed [\<lparr>argv = pre @ post, infile = Some f, outfile = None, append = False\<rparr>] False"
      using parse_commands_redirect [OF h, of "''<''" f "\<lambda>c. c\<lparr>infile := Some f\<rparr>"]
      by (simp add: empty_cmd_def)
    show "parse_commands (pre @ ''>'' # f # post)
        = Parsed [\<lparr>argv = pre @ post, infile = None, outfile = Some f, append = False\<rparr>] False"
      using parse_commands_redirect [OF h, of "''>''" f "\<lambda>c. c\<lparr>outfile := Some f, append := False\<rparr>"]
      by (simp add: empty_cmd_def)
    show "parse_commands (pre @ ''>>'' # f # post)
        = Parsed [\<lparr>argv = pre @ post, infile = None, outfile = Some f, append = True\<rparr>] False"
      using parse_commands_redirect [OF h, of "''>>''" f "\<lambda>c. c\<lparr>outfile := Some f, append := True\<rparr>"]
      by (simp add: empty_cmd_def)
    have l: "length pre < MAX_TOKENS"
      using h(3) by simp
    show "parse_commands (pre @ [''<'']) = ParseError InputNeedsFile"
      "parse_commands (pre @ [''>'']) = ParseError OutputNeedsFile"
      "parse_commands (pre @ [''>>'']) = ParseError OutputNeedsFile"
      using parse_commands_redirect_last [OF h(1) l] by simp_all
  qed
  show ?thesis
    using whole by (simp add: steps)
qed

theorem parse_redirection_witness:
  "parse_commands [''sort'', ''<'', ''in.txt'', ''-r'']
     = Parsed [\<lparr>argv = [''sort'', ''-r''], infile = Some ''in.txt'', outfile = None,
         append = False\<rparr>] False \<and>
   parse_commands [''sort'', ''>>'', ''out.txt'', ''-r'']
     = Parsed [\<lparr>argv = [''sort'', ''-r''], infile = None, outfile = Some ''out.txt'',
         append = True\<rparr>] False \<and>
   parse_commands [''sort'', ''>''] = ParseError OutputNeedsFile"
proof -
  have h: "list_all is_word_token [''sort'']" "list_all is_word_token [''-r'']"
    "length [''sort''] + length [''-r''] < MAX_TOKENS"
    by (simp_all add: is_word_token_def is_operator_token_def MAX_TOKENS_def)
  show ?thesis
    using parse_redirection [of "''in.txt''" "[]" "[]" empty_cmd False "[''sort'']" "[''-r'']"]
      parse_redirection [of "''out.txt''" "[]" "[]" empty_cmd False "[''sort'']" "[''-r'']"] h
    by simp
qed

text \<open>
  C4 as stated fails: the token after a redirection operator need not be a word. In
  \<^verbatim>\<open>cat < >\<close> the operator token \<open>>\<close> is taken as the input path, and the parse succeeds
  although its last token is a redirection operator.
\<close>

theorem parse_redirection_counterexample:
  "is_operator_token ''>'' \<and>
   parse_commands [''cat'', ''<'', ''>'']
     = Parsed [\<lparr>argv = [''cat''], infile = Some ''>'', outfile = None, append = False\<rparr>] False"
  by (simp add: is_operator_token_def parse_commands_def empty_cmd_def MAX_TOKENS_def)

subsection \<open>Quoting and words (C3)\<close>

lemma all_tokens_Nil: "all_tokens [] = []"
  by (subst all_tokens.simps) simp

lemma tokenize_loop_all_tokens:
  "tokenize_loop mx p toks = toks @ take (nat (mx - 1) - length toks) (all_tokens p)"
proof (induction mx p toks rule: tokenize_loop.induct)
  case (1 mx p toks)
  show ?case
  proof (cases "p \<noteq> [] \<and> int (length toks) < mx - 1")
    case False
    then show ?thesis
      by (subst tokenize_loop.simps) (auto simp: all_tokens_Nil)
  next
    case True
    then have room: "nat (mx - 1) - length toks = Suc (nat (mx - 1) - Suc (length toks))"
      by linarith
    show ?thesis
    proof (cases "dropWhile is_space p")
      case Nil
      show ?thesis
        using True
        by (subst tokenize_loop.simps, subst all_tokens.simps)
          (simp add: Nil del: dropWhile_eq_Nil_conv)
    next
      case (Cons c cs)
      show ?thesis
      proof (cases "is_operator_char c")
        case op: True
        show ?thesis
        proof (cases "c = CHR ''>'' \<and> (case cs of [] \<Rightarrow> False | d # _ \<Rightarrow> d = CHR ''>'')")
          case gg: True
          have "tokenize_loop mx p toks = tokenize_loop mx (tl cs) (toks @ [''>>''])"
            using True Cons op gg by (subst tokenize_loop.simps) simp
          moreover have "all_tokens p = ''>>'' # all_tokens (tl cs)"
            using Cons op gg by (subst all_tokens.simps) simp
          ultimately show ?thesis
            using "1.IH"(1) [OF True Cons op gg] room by simp
        next
          case g: False
          have "tokenize_loop mx p toks = tokenize_loop mx cs (toks @ [[c]])"
            using True Cons op g by (subst tokenize_loop.simps) auto
          moreover have "all_tokens p = [c] # all_tokens cs"
            using Cons op g by (subst all_tokens.simps) auto
          ultimately show ?thesis
            using "1.IH"(2) [OF True Cons op g] room by simp
        qed
      next
        case nop: False
        obtain w rest where sw: "scan_word False NUL (c # cs) = (w, rest)"
          by (cases "scan_word False NUL (c # cs)")
        have "tokenize_loop mx p toks = tokenize_loop mx rest (toks @ [strip_quotes w])"
          using True Cons nop sw by (subst tokenize_loop.simps) simp
        moreover have "all_tokens p = strip_quotes w # all_tokens rest"
          using Cons nop sw by (subst all_tokens.simps) simp
        ultimately show ?thesis
          using "1.IH"(3) [OF True Cons nop sw [symmetric]] room by simp
      qed
    qed
  qed
qed

lemma tokenize_all_tokens:
  "tokenize line mx = take (nat (mx - 1)) (all_tokens (c_str line))"
  by (simp add: tokenize_def tokenize_loop_all_tokens)

lemma split_ws_skip_spaces: "split_ws None [] (dropWhile is_space s) = split_ws None [] s"
  by (induction s) auto

text \<open>The scan of one word, seen from the splitter: the scanned text joins the word in
  progress, and the splitter stands, outside any quoted span, where the scan stopped.\<close>

lemma split_ws_scan_word:
  "scan_word inquote quotechar s = (w, r) \<Longrightarrow>
   split_ws (if inquote then Some quotechar else None) acc s =
     (if r = [] then (if acc @ w = [] then [] else [acc @ w]) else split_ws None (acc @ w) r)"
proof (induction inquote quotechar s arbitrary: w acc rule: scan_word.induct)
  case (1 inquote quotechar)
  then show ?case by simp
next
  case (2 inquote quotechar c cs)
  show ?case
  proof (cases "\<not> inquote \<and> is_space c")
    case True
    then show ?thesis using "2.prems" by auto
  next
    case sp: False
    show ?thesis
    proof (cases "\<not> inquote \<and> is_quote c")
      case True
      obtain w' where w': "scan_word True c cs = (w', r)" and w: "w = c # w'"
        using "2.prems" sp True by (cases "scan_word True c cs") auto
      show ?thesis
        using "2.IH"(1) [OF sp True w', of "acc @ [c]"] sp True by (simp add: w)
    next
      case qu: False
      show ?thesis
      proof (cases "inquote \<and> c = quotechar")
        case True
        obtain w' where w': "scan_word False NUL cs = (w', r)" and w: "w = c # w'"
          using "2.prems" sp qu True by (cases "scan_word False NUL cs") auto
        show ?thesis
          using "2.IH"(2) [OF sp qu True w', of "acc @ [c]"] True by (simp add: w)
      next
        case cl: False
        show ?thesis
        proof (cases "\<not> inquote \<and> is_operator_char c")
          case True
          then show ?thesis using "2.prems" sp qu cl by auto
        next
          case op: False
          obtain w' where w': "scan_word inquote quotechar cs = (w', r)" and w: "w = c # w'"
            using "2.prems" sp qu cl op by (cases "scan_word inquote quotechar cs") auto
          show ?thesis
            using "2.IH"(3) [OF sp qu cl op w', of "acc @ [c]"] sp qu cl op
            by (cases inquote) (auto simp: w)
        qed
      qed
    qed
  qed
qed

lemma scan_word_nonempty:
  "scan_word False quotechar (c # cs) = (w, r) \<Longrightarrow> \<not> is_space c \<Longrightarrow>
   \<not> is_operator_char c \<Longrightarrow> w \<noteq> []"
  by (auto simp: apfst_def map_prod_def split: if_splits prod.splits)

lemma without_quote_chars_strip: "without_quote_chars w = strip_quotes w"
  by (simp add: without_quote_chars_def strip_quotes_def is_quote_def)

lemma space_not_quote: "is_space c \<Longrightarrow> \<not> is_quote c"
  by (auto simp: is_space_def is_quote_def)

lemma operators_quoted_skip_spaces:
  "operators_quoted None p \<Longrightarrow> operators_quoted None (dropWhile is_space p)"
  by (induction p) (auto simp: space_not_quote)

lemma scan_word_operators_quoted:
  "scan_word inquote quotechar s = (w, r) \<Longrightarrow>
   operators_quoted (if inquote then Some quotechar else None) s \<Longrightarrow>
   operators_quoted None r \<and> (r \<noteq> [] \<longrightarrow> is_space (hd r))"
  by (induction inquote quotechar s arbitrary: w rule: scan_word.induct)
    (auto simp: apfst_def map_prod_def space_not_quote split: if_splits prod.splits)

lemma all_tokens_stripped_words:
  "operators_quoted None p \<Longrightarrow> all_tokens p = stripped_words p"
proof (induction p rule: all_tokens.induct)
  case (1 p)
  show ?case
  proof (cases "dropWhile is_space p")
    case Nil
    have "all_tokens p = []"
      by (subst all_tokens.simps) (simp add: Nil del: dropWhile_eq_Nil_conv)
    moreover have "stripped_words p = []"
      using split_ws_skip_spaces [of p]
      by (simp add: stripped_words_def Nil del: dropWhile_eq_Nil_conv)
    ultimately show ?thesis by simp
  next
    case (Cons c cs)
    have nsp: "\<not> is_space c"
      using Cons by (rule dropWhile_Cons_head)
    have oq: "operators_quoted None (c # cs)"
      using operators_quoted_skip_spaces [OF "1.prems"] by (simp only: Cons)
    then have nop: "\<not> is_operator_char c"
      by simp
    obtain w rest where sw: "scan_word False NUL (c # cs) = (w, rest)"
      by (cases "scan_word False NUL (c # cs)")
    have rest: "operators_quoted None rest" "rest \<noteq> [] \<longrightarrow> is_space (hd rest)"
      using scan_word_operators_quoted [OF sw] oq by simp_all
    have at: "all_tokens p = strip_quotes w # all_tokens rest"
      using Cons nop sw by (subst all_tokens.simps) simp
    have ih: "all_tokens rest = stripped_words rest"
      using "1.IH"(3) [OF Cons nop sw [symmetric] rest(1)] .
    have w: "w \<noteq> []"
      using sw nsp nop by (rule scan_word_nonempty)
    have "split_ws None [] p = split_ws None [] (c # cs)"
      using split_ws_skip_spaces [of p] by (simp only: Cons)
    also have "\<dots> = (if rest = [] then (if [] @ w = [] then [] else [[] @ w])
        else split_ws None ([] @ w) rest)"
      using split_ws_scan_word [OF sw, of "[]"] by (simp only: if_False)
    finally have split: "split_ws None [] p = (if rest = [] then [w] else split_ws None w rest)"
      using w by simp
    show ?thesis
    proof (cases rest)
      case Nil
      then show ?thesis
        using at split by (simp add: stripped_words_def without_quote_chars_strip all_tokens_Nil)
    next
      case (Cons d ds)
      then have "is_space d"
        using rest(2) by simp
      then have "split_ws None w rest = w # split_ws None [] rest"
        using w Cons by simp
      then show ?thesis
        using at split ih Cons by (simp add: stripped_words_def without_quote_chars_strip)
    qed
  qed
qed

lemma without_quote_chars_Cons:
  "without_quote_chars (c # w) = (if is_quote c then without_quote_chars w else c # without_quote_chars w)"
  by (simp add: without_quote_chars_def is_quote_def)

lemma unquote_plain:
  "spans_plain q w \<Longrightarrow> (\<forall>qc. q = Some qc \<longrightarrow> is_quote qc) \<Longrightarrow>
   unquote q w = without_quote_chars w"
proof (induction w arbitrary: q)
  case Nil
  show ?case by (simp add: without_quote_chars_def)
next
  case (Cons c w)
  show ?case
  proof (cases q)
    case None
    show ?thesis
    proof (cases "is_quote c")
      case True
      have "unquote (Some c) w = without_quote_chars w"
        using Cons.prems(1) None True by (intro Cons.IH) simp_all
      then show ?thesis
        using None True by (simp add: without_quote_chars_Cons)
    next
      case False
      have "unquote None w = without_quote_chars w"
        using Cons.prems(1) None False by (intro Cons.IH) simp_all
      then show ?thesis
        using None False by (simp add: without_quote_chars_Cons)
    qed
  next
    case (Some qc)
    then have qc: "is_quote qc"
      using Cons.prems(2) by simp
    show ?thesis
    proof (cases "c = qc")
      case True
      have "unquote None w = without_quote_chars w"
        using Cons.prems(1) Some True by (intro Cons.IH) simp_all
      then show ?thesis
        using Some True qc by (simp add: without_quote_chars_Cons)
    next
      case False
      then have nq: "\<not> is_quote c" and sp: "spans_plain (Some qc) w"
        using Cons.prems(1) Some by simp_all
      have "unquote (Some qc) w = without_quote_chars w"
        using sp qc by (intro Cons.IH) simp_all
      then show ?thesis
        using Some False nq by (simp add: without_quote_chars_Cons)
    qed
  qed
qed

lemma spec_words_plain:
  assumes "list_all (spans_plain None) (split_ws None [] line)"
  shows "spec_words line = stripped_words line"
proof -
  have "unquote None w = without_quote_chars w" if "w \<in> set (split_ws None [] line)" for w
    using assms that by (intro unquote_plain) (simp_all add: list_all_iff)
  then show ?thesis
    by (simp add: spec_words_def stripped_words_def)
qed

lemma quote_not_space_operator: "is_quote q \<Longrightarrow> \<not> is_space q \<and> \<not> is_operator_char q"
  by (auto simp: is_quote_def is_space_def is_operator_char_def)

lemma scan_word_in_quotes:
  "q \<notin> set body \<Longrightarrow>
   scan_word True q (body @ q # rest) = apfst ((@) (body @ [q])) (scan_word False NUL rest)"
  by (induction body) (auto simp: apfst_def map_prod_def split: prod.splits)

lemma scan_word_word_part:
  "word_part (if inquote then Some quotechar else None) pre \<Longrightarrow> inquote \<or> quotechar = NUL \<Longrightarrow>
   scan_word inquote quotechar (pre @ r) = apfst ((@) pre) (scan_word False NUL r)"
proof (induction pre arbitrary: inquote quotechar)
  case Nil
  then show ?case by (cases inquote) (auto simp: apfst_def map_prod_def)
next
  case (Cons c pre)
  show ?case
  proof (cases inquote)
    case True
    show ?thesis
    proof (cases "c = quotechar")
      case c: True
      have "scan_word False NUL (pre @ r) = apfst ((@) pre) (scan_word False NUL r)"
        using Cons.prems True c by (intro Cons.IH) auto
      then show ?thesis
        using True c by (simp add: apfst_def map_prod_def split: prod.splits)
    next
      case c: False
      have "scan_word True quotechar (pre @ r) = apfst ((@) pre) (scan_word False NUL r)"
        using Cons.prems True c by (intro Cons.IH) auto
      then show ?thesis
        using True c by (simp add: apfst_def map_prod_def split: prod.splits)
    qed
  next
    case False
    then have z: "quotechar = NUL" and c: "\<not> is_space c" "\<not> is_operator_char c"
      using Cons.prems by auto
    show ?thesis
    proof (cases "is_quote c")
      case True
      have "scan_word True c (pre @ r) = apfst ((@) pre) (scan_word False NUL r)"
        using Cons.prems False True by (intro Cons.IH) auto
      then show ?thesis
        using False True c by (simp add: apfst_def map_prod_def split: prod.splits)
    next
      case q: False
      have "scan_word False NUL (pre @ r) = apfst ((@) pre) (scan_word False NUL r)"
        using Cons.prems False q by (intro Cons.IH) auto
      then show ?thesis
        using False q c z by (simp add: apfst_def map_prod_def split: prod.splits)
    qed
  qed
qed

lemma word_part_plain: "list_all is_plain_char w \<Longrightarrow> word_part None w"
  by (induction w) (auto simp: is_plain_char_def)

lemma scan_word_quoted_span:
  assumes "word_part None pre" and "is_quote q" and "q \<notin> set body"
  shows "scan_word False NUL (pre @ q # body @ q # rest)
       = apfst ((@) (pre @ q # body @ [q])) (scan_word False NUL rest)"
proof -
  have "scan_word False NUL (q # body @ q # rest)
      = apfst ((#) q) (scan_word True q (body @ q # rest))"
    using quote_not_space_operator [OF assms(2)] assms(2) by simp
  then show ?thesis
    using scan_word_word_part [of False NUL pre "q # body @ q # rest"] assms(1)
      scan_word_in_quotes [OF assms(3), of rest]
    by (simp add: apfst_def map_prod_def split: prod.splits)
qed

lemma strip_quotes_append: "strip_quotes (a @ b) = strip_quotes a @ strip_quotes b"
  by (simp add: strip_quotes_def)

lemma strip_quotes_quote: "is_quote q \<Longrightarrow> strip_quotes (q # a) = strip_quotes a"
  by (simp add: strip_quotes_def)

lemma tokenize_loop_quoted_span:
  assumes "int (length toks) < mx - 1" and "word_part None pre" and "is_quote q"
    and "q \<notin> set body"
  shows "tokenize_loop mx (pre @ q # body @ q # rest) toks =
     tokenize_loop mx (snd (scan_word False NUL rest))
       (toks @ [strip_quotes pre @ strip_quotes body
                 @ strip_quotes (fst (scan_word False NUL rest))])"
proof -
  obtain c cs where c: "pre @ q # body @ q # rest = c # cs"
    by (cases pre) auto
  have c': "\<not> is_space c" "\<not> is_operator_char c"
    using c assms(2) quote_not_space_operator [OF assms(3)] by (cases pre; auto)+
  obtain w r where wr: "scan_word False NUL rest = (w, r)"
    by (cases "scan_word False NUL rest")
  have sw: "scan_word False NUL (c # cs) = (pre @ q # body @ [q] @ w, r)"
    using scan_word_quoted_span [OF assms(2,3,4), of rest] by (simp add: c wr)
  have "strip_quotes (pre @ q # body @ [q] @ w)
      = strip_quotes pre @ strip_quotes body @ strip_quotes w"
    using strip_quotes_quote [OF assms(3)] by (simp add: strip_quotes_append)
  then show ?thesis
    using assms(1) c' sw by (subst tokenize_loop.simps) (simp add: c wr)
qed

lemma parse_commands_words:
  assumes "list_all is_word_token ws" and "length ws < MAX_TOKENS"
  shows "parse_commands ws
       = Parsed [\<lparr>argv = ws, infile = None, outfile = None, append = False\<rparr>] False"
  using assms parse_loop_words [of ws empty_cmd "[]" "[]" False]
  by (simp add: parse_commands_def empty_cmd_def)

lemma list_all_take: "list_all P xs \<Longrightarrow> list_all P (take n xs)"
  by (auto simp: list_all_iff dest: in_set_takeD)

text \<open>
  C3, amended. Wherever the loop stands with room for another token: in a word, after a
  piece \<open>pre\<close> that leaves the scanner outside quotes, a span opened by a quote character
  \<open>q\<close> and closed by the next \<open>q\<close> is scanned as part of the word whatever it holds,
  whitespace and operator characters included; the token gets the span's text in place,
  between what comes before and after it in the word, with every \<^verbatim>\<open>'\<close> and \<^verbatim>\<open>"\<close> character
  removed: the two that delimit the span and also a quote character of the other kind inside
  it. And a line that has no operator character outside a quoted span and no word that,
  its quote characters removed, is one of \<^verbatim>\<open>|\<close>, \<^verbatim>\<open><\<close>, \<^verbatim>\<open>>\<close>, \<^verbatim>\<open>>>\<close>, \<^verbatim>\<open>&\<close>, parses to one
  stage, with no redirection and not in the background, whose arguments are the first
  \<open>MAX_TOKENS - 1\<close> whitespace-split words of the line, each with every quote character
  removed, in order; these are the quote-stripped words of the specification when no quoted
  span holds a quote character.
\<close>

theorem tokenize_quotes_words:
  "(int (length toks) < mx - 1 \<and> word_part None pre \<and> is_quote q \<and> q \<notin> set body \<longrightarrow>
      tokenize_loop mx (pre @ q # body @ q # rest) toks =
        tokenize_loop mx (snd (scan_word False NUL rest))
          (toks @ [without_quote_chars pre @ without_quote_chars body
                    @ without_quote_chars (fst (scan_word False NUL rest))])) \<and>
   (operators_quoted None (c_str line) \<and> list_all is_word_token (stripped_words (c_str line)) \<longrightarrow>
      parse_commands (tokenize line (int MAX_TOKENS))
        = Parsed [\<lparr>argv = take (MAX_TOKENS - 1) (stripped_words (c_str line)), infile = None,
            outfile = None, append = False\<rparr>] False \<and>
      (list_all (spans_plain None) (split_ws None [] (c_str line)) \<longrightarrow>
         parse_commands (tokenize line (int MAX_TOKENS))
           = Parsed [\<lparr>argv = take (MAX_TOKENS - 1) (spec_words (c_str line)), infile = None,
               outfile = None, append = False\<rparr>] False))"
proof -
  have p: "parse_commands (tokenize line (int MAX_TOKENS))
        = Parsed [\<lparr>argv = take (MAX_TOKENS - 1) (stripped_words (c_str line)), infile = None,
            outfile = None, append = False\<rparr>] False"
    if h: "operators_quoted None (c_str line)"
      and ws: "list_all is_word_token (stripped_words (c_str line))"
  proof -
    have t: "tokenize line (int MAX_TOKENS) = take (MAX_TOKENS - 1) (stripped_words (c_str line))"
      using all_tokens_stripped_words [OF h] by (simp add: tokenize_all_tokens nat_diff_distrib')
    have "list_all is_word_token (take (MAX_TOKENS - 1) (stripped_words (c_str line)))"
      using ws by (rule list_all_take)
    then show ?thesis
      unfolding t by (rule parse_commands_words) (simp add: MAX_TOKENS_def)
  qed
  show ?thesis
    using tokenize_loop_quoted_span [of toks mx pre q body rest] p
      spec_words_plain [of "c_str line"]
    by (simp add: without_quote_chars_strip)
qed

theorem tokenize_quotes_words_witness:
  "tokenize_loop 256
      ((''a'' @ CHR 0x22 # ''x < y'' @ [CHR 0x22]) @ CHR 0x27 # ''b | c'' @ CHR 0x27 # ''d e'') []
     = [''ax < yb | cd'', ''e''] \<and>
   parse_commands (tokenize (''echo '' @ CHR 0x22 # ''a  b'' @ CHR 0x22 # ''  c'') (int MAX_TOKENS))
     = Parsed [\<lparr>argv = [''echo'', ''a  b'', ''c''], infile = None, outfile = None,
         append = False\<rparr>] False \<and>
   spec_words (''echo '' @ CHR 0x22 # ''a  b'' @ CHR 0x22 # ''  c'') = [''echo'', ''a  b'', ''c'']"
proof -
  let ?pre = "''a'' @ CHR 0x22 # ''x < y'' @ [CHR 0x22]"
  let ?line = "''echo '' @ CHR 0x22 # ''a  b'' @ CHR 0x22 # ''  c''"
  note th = tokenize_quotes_words [of "[]" 256 ?pre "CHR 0x27" "''b | c''" "''d e''" ?line]
  have h: "int (length ([] :: string list)) < 256 - 1 \<and> word_part None ?pre \<and>
      is_quote (CHR 0x27) \<and> CHR 0x27 \<notin> set ''b | c''"
    by (simp add: is_space_def is_operator_char_def is_quote_def)
  have span: "tokenize_loop 256 (?pre @ CHR 0x27 # ''b | c'' @ CHR 0x27 # ''d e'') [] =
      tokenize_loop 256 (snd (scan_word False NUL ''d e''))
        ([] @ [without_quote_chars ?pre @ without_quote_chars ''b | c''
                @ without_quote_chars (fst (scan_word False NUL ''d e''))])"
    using th [THEN conjunct1] h by blast
  have e: "tokenize_loop 256 (snd (scan_word False NUL ''d e''))
        ([] @ [without_quote_chars ?pre @ without_quote_chars ''b | c''
                @ without_quote_chars (fst (scan_word False NUL ''d e''))])
      = [''ax < yb | cd'', ''e'']"
    by code_simp
  have w: "operators_quoted None (c_str ?line) \<and>
      list_all is_word_token (stripped_words (c_str ?line))"
    by code_simp
  have pl: "list_all (spans_plain None) (split_ws None [] (c_str ?line))"
    by code_simp
  have words: "parse_commands (tokenize ?line (int MAX_TOKENS))
      = Parsed [\<lparr>argv = take (MAX_TOKENS - 1) (spec_words (c_str ?line)), infile = None,
          outfile = None, append = False\<rparr>] False"
    using th [THEN conjunct2] w pl by blast
  have s: "take (MAX_TOKENS - 1) (spec_words (c_str ?line)) = [''echo'', ''a  b'', ''c'']"
    "spec_words ?line = [''echo'', ''a  b'', ''c'']"
    by code_simp+
  show ?thesis
    using span e words s by (simp only: simp_thms)
qed

text \<open>
  C3 as stated fails in three ways. Of the 256 words of \<^verbatim>\<open>a a a ...\<close> only the first 255 reach
  the argument vector. In \<^verbatim>\<open>echo "|" wc\<close> no operator stands outside quotes and the words are
  \<^verbatim>\<open>echo\<close>, \<^verbatim>\<open>|\<close>, \<^verbatim>\<open>wc\<close>, but the token \<^verbatim>\<open>|\<close> has lost its quotes and the parser takes it for
  the pipe operator: two stages. In \<^verbatim>\<open>echo "it's"\<close> the quote-stripped word is \<^verbatim>\<open>it's\<close>, but the
  argument is \<^verbatim>\<open>its\<close>.
\<close>

theorem tokenize_quotes_words_counterexample:
  "(operators_quoted None (concat (replicate 256 ''a '')) \<and>
    list_all is_word_token (spec_words (concat (replicate 256 ''a ''))) \<and>
    spec_words (concat (replicate 256 ''a '')) = replicate 256 ''a'' \<and>
    parse_commands (tokenize (concat (replicate 256 ''a '')) (int MAX_TOKENS))
      = Parsed [stage (replicate 255 ''a'')] False) \<and>
   (operators_quoted None (''echo '' @ CHR 0x22 # ''|'' @ CHR 0x22 # '' wc'') \<and>
    spec_words (''echo '' @ CHR 0x22 # ''|'' @ CHR 0x22 # '' wc'') = [''echo'', ''|'', ''wc''] \<and>
    parse_commands (tokenize (''echo '' @ CHR 0x22 # ''|'' @ CHR 0x22 # '' wc'') (int MAX_TOKENS))
      = Parsed [stage [''echo''], stage [''wc'']] False) \<and>
   (operators_quoted None (''echo '' @ CHR 0x22 # ''it'' @ CHR 0x27 # ''s'' @ [CHR 0x22]) \<and>
    list_all is_word_token
      (spec_words (''echo '' @ CHR 0x22 # ''it'' @ CHR 0x27 # ''s'' @ [CHR 0x22])) \<and>
    spec_words (''echo '' @ CHR 0x22 # ''it'' @ CHR 0x27 # ''s'' @ [CHR 0x22])
      = [''echo'', ''it'' @ CHR 0x27 # ''s''] \<and>
    parse_commands
        (tokenize (''echo '' @ CHR 0x22 # ''it'' @ CHR 0x27 # ''s'' @ [CHR 0x22]) (int MAX_TOKENS))
      = Parsed [stage [''echo'', ''its'']] False)"
  by code_simp

subsection \<open>Job table and reaper (C10, C9)\<close>

lemma add_job_loop_first:
  "i0 \<le> i \<Longrightarrow> i < MAX_JOBS \<Longrightarrow> \<not> running (jobs ! i) \<Longrightarrow>
   (\<And>k. i0 \<le> k \<Longrightarrow> k < i \<Longrightarrow> running (jobs ! k)) \<Longrightarrow>
   add_job_loop i0 jobs p line =
     (jobs[i := \<lparr>pid = p, cmdline = strncpy line 511, running = True\<rparr>], [JobStarted (i + 1) p])"
proof (induction i0 jobs p line rule: add_job_loop.induct)
  case (1 i0 jobs p line)
  show ?case
  proof (cases "i0 = i")
    case True
    then show ?thesis
      using "1.prems"(2,3) by (subst add_job_loop.simps) simp
  next
    case False
    then have lt: "i0 < i"
      using "1.prems"(1) by simp
    then have r: "running (jobs ! i0)"
      using "1.prems"(4) [of i0] by simp
    have i0: "i0 < MAX_JOBS"
      using lt "1.prems"(2) by simp
    have "add_job_loop (i0 + 1) jobs p line =
        (jobs[i := \<lparr>pid = p, cmdline = strncpy line 511, running = True\<rparr>], [JobStarted (i + 1) p])"
      using lt "1.prems"(2,3,4) r i0 by (intro "1.IH") auto
    then show ?thesis
      using r i0 by (subst add_job_loop.simps) simp
  qed
qed

lemma add_job_loop_full:
  "(\<And>k. i0 \<le> k \<Longrightarrow> k < MAX_JOBS \<Longrightarrow> running (jobs ! k)) \<Longrightarrow>
   add_job_loop i0 jobs p line = (jobs, [JobListFull])"
proof (induction i0 jobs p line rule: add_job_loop.induct)
  case (1 i0 jobs p line)
  show ?case
  proof (cases "i0 < MAX_JOBS")
    case False
    then show ?thesis
      by (subst add_job_loop.simps) simp
  next
    case True
    then have r: "running (jobs ! i0)"
      using "1.prems" [of i0] by simp
    have "add_job_loop (i0 + 1) jobs p line = (jobs, [JobListFull])"
      using True r "1.prems" by (intro "1.IH") auto
    then show ?thesis
      using True r by (subst add_job_loop.simps) simp
  qed
qed

lemma mark_job_done_loop_first:
  "i0 \<le> i \<Longrightarrow> i < MAX_JOBS \<Longrightarrow> running (jobs ! i) \<and> pid (jobs ! i) = p \<Longrightarrow>
   (\<And>k. i0 \<le> k \<Longrightarrow> k < i \<Longrightarrow> \<not> (running (jobs ! k) \<and> pid (jobs ! k) = p)) \<Longrightarrow>
   mark_job_done_loop i0 jobs p status =
     (jobs[i := (jobs ! i)\<lparr>running := False\<rparr>],
      (case status of
         Exited code \<Rightarrow> [JobFinished (i + 1) p code (cmdline (jobs ! i))]
       | Signaled sig \<Rightarrow> [JobKilled (i + 1) p sig (cmdline (jobs ! i))]
       | OtherStatus \<Rightarrow> []))"
proof (induction i0 jobs p status rule: mark_job_done_loop.induct)
  case (1 i0 jobs p status)
  show ?case
  proof (cases "i0 = i")
    case True
    show ?thesis
      unfolding True using "1.prems"(2,3) by (subst mark_job_done_loop.simps) simp
  next
    case False
    then have lt: "i0 < i"
      using "1.prems"(1) by simp
    then have r: "\<not> (running (jobs ! i0) \<and> pid (jobs ! i0) = p)"
      using "1.prems"(4) [of i0] by simp
    have i0: "i0 < MAX_JOBS"
      using lt "1.prems"(2) by simp
    have "mark_job_done_loop (i0 + 1) jobs p status =
     (jobs[i := (jobs ! i)\<lparr>running := False\<rparr>],
      (case status of
         Exited code \<Rightarrow> [JobFinished (i + 1) p code (cmdline (jobs ! i))]
       | Signaled sig \<Rightarrow> [JobKilled (i + 1) p sig (cmdline (jobs ! i))]
       | OtherStatus \<Rightarrow> []))"
      using lt "1.prems"(2,3,4) r i0 by (intro "1.IH") auto
    then show ?thesis
      using r i0 by (subst mark_job_done_loop.simps) auto
  qed
qed

lemma mark_job_done_loop_none:
  "(\<And>k. i0 \<le> k \<Longrightarrow> k < MAX_JOBS \<Longrightarrow> \<not> (running (jobs ! k) \<and> pid (jobs ! k) = p)) \<Longrightarrow>
   mark_job_done_loop i0 jobs p status = (jobs, [])"
proof (induction i0 jobs p status rule: mark_job_done_loop.induct)
  case (1 i0 jobs p status)
  show ?case
  proof (cases "i0 < MAX_JOBS")
    case False
    then show ?thesis
      by (subst mark_job_done_loop.simps) simp
  next
    case True
    then have r: "\<not> (running (jobs ! i0) \<and> pid (jobs ! i0) = p)"
      using "1.prems" [of i0] by simp
    have "mark_job_done_loop (i0 + 1) jobs p status = (jobs, [])"
      using True r "1.prems" by (intro "1.IH") auto
    then show ?thesis
      using True r by (subst mark_job_done_loop.simps) auto
  qed
qed

text \<open>Either some slot is the first to satisfy a condition, or none below the bound does.\<close>

lemma first_or_none:
  fixes n :: nat
  obtains i where "i < n" and "P i" and "\<And>k. k < i \<Longrightarrow> \<not> P k"
  | "\<And>k. k < n \<Longrightarrow> \<not> P k"
proof (cases "\<exists>i. i < n \<and> P i")
  case True
  then obtain i where "i < n \<and> P i" and "\<forall>k<i. \<not> (k < n \<and> P k)"
    using exists_least_iff [of "\<lambda>i. i < n \<and> P i"] by auto
  then show ?thesis
    using that(1) [of i] by auto
next
  case False
  then show ?thesis
    using that(2) by blast
qed

lemma add_job_cases:
  obtains i where "i < MAX_JOBS" and "\<not> running (jobs ! i)" and "\<And>k. k < i \<Longrightarrow> running (jobs ! k)"
    and "add_job jobs p line =
      (jobs[i := \<lparr>pid = p, cmdline = strncpy line 511, running = True\<rparr>], [JobStarted (i + 1) p])"
  | "\<And>k. k < MAX_JOBS \<Longrightarrow> running (jobs ! k)" and "add_job jobs p line = (jobs, [JobListFull])"
proof (rule first_or_none [of MAX_JOBS "\<lambda>i. \<not> running (jobs ! i)"], goal_cases)
  case (1 i)
  then show ?case
    using add_job_loop_first [of 0 i jobs p line] that(1) [of i] by (auto simp: add_job_def)
next
  case 2
  then show ?case
    using add_job_loop_full [of 0 jobs p line] that(2) by (auto simp: add_job_def)
qed

lemma mark_job_done_cases:
  obtains i where "i < MAX_JOBS" and "running (jobs ! i)" and "pid (jobs ! i) = p"
    and "\<And>k. k < i \<Longrightarrow> \<not> (running (jobs ! k) \<and> pid (jobs ! k) = p)"
    and "mark_job_done jobs p status =
     (jobs[i := (jobs ! i)\<lparr>running := False\<rparr>],
      (case status of
         Exited code \<Rightarrow> [JobFinished (i + 1) p code (cmdline (jobs ! i))]
       | Signaled sig \<Rightarrow> [JobKilled (i + 1) p sig (cmdline (jobs ! i))]
       | OtherStatus \<Rightarrow> []))"
  | "\<And>k. k < MAX_JOBS \<Longrightarrow> \<not> (running (jobs ! k) \<and> pid (jobs ! k) = p)"
    and "mark_job_done jobs p status = (jobs, [])"
proof (rule first_or_none [of MAX_JOBS "\<lambda>i. running (jobs ! i) \<and> pid (jobs ! i) = p"], goal_cases)
  case (1 i)
  then show ?case
    using mark_job_done_loop_first [of 0 i jobs p status] that(1) [of i]
    by (auto simp: mark_job_done_def)
next
  case 2
  then show ?case
    using mark_job_done_loop_none [of 0 jobs p status] that(2) by (auto simp: mark_job_done_def)
qed

lemma list_update_one_slot: "\<exists>m. \<forall>j. j \<noteq> m \<longrightarrow> xs[i := x] ! j = xs ! j"
  by (rule exI [of _ i]) simp

text \<open>
  C10. On a table of \<open>MAX_JOBS\<close> slots: \<open>add_job\<close> writes the first slot that is not running
  and no other, never a slot that is running, and writes nothing when every slot is running;
  \<open>mark_job_done\<close> clears the running flag of the first running slot with the given pid,
  keeping that slot's pid and command line and every other slot, and changes nothing when no
  running slot has that pid.
\<close>

theorem job_table_frame:
  assumes "length jobs = MAX_JOBS"
  shows
    "(i < MAX_JOBS \<and> \<not> running (jobs ! i) \<and> (\<forall>k<i. running (jobs ! k)) \<longrightarrow>
        fst (add_job jobs p line)
          = jobs[i := \<lparr>pid = p, cmdline = strncpy line 511, running = True\<rparr>]) \<and>
     ((\<forall>k<MAX_JOBS. running (jobs ! k)) \<longrightarrow> fst (add_job jobs p line) = jobs) \<and>
     (\<forall>j<MAX_JOBS. running (jobs ! j) \<longrightarrow> fst (add_job jobs p line) ! j = jobs ! j) \<and>
     (\<exists>m. \<forall>j. j \<noteq> m \<longrightarrow> fst (add_job jobs p line) ! j = jobs ! j) \<and>
     (i < MAX_JOBS \<and> running (jobs ! i) \<and> pid (jobs ! i) = q \<and>
      (\<forall>k<i. \<not> (running (jobs ! k) \<and> pid (jobs ! k) = q)) \<longrightarrow>
        fst (mark_job_done jobs q status) = jobs[i := (jobs ! i)\<lparr>running := False\<rparr>] \<and>
        pid (fst (mark_job_done jobs q status) ! i) = pid (jobs ! i) \<and>
        cmdline (fst (mark_job_done jobs q status) ! i) = cmdline (jobs ! i) \<and>
        \<not> running (fst (mark_job_done jobs q status) ! i)) \<and>
     ((\<forall>k<MAX_JOBS. \<not> (running (jobs ! k) \<and> pid (jobs ! k) = q)) \<longrightarrow>
        fst (mark_job_done jobs q status) = jobs) \<and>
     (\<exists>m. \<forall>j. j \<noteq> m \<longrightarrow> fst (mark_job_done jobs q status) ! j = jobs ! j)"
proof -
  have a1: "fst (add_job jobs p line)
      = jobs[i := \<lparr>pid = p, cmdline = strncpy line 511, running = True\<rparr>]"
    if "i < MAX_JOBS" "\<not> running (jobs ! i)" "\<forall>k<i. running (jobs ! k)"
    using that add_job_loop_first [of 0 i jobs p line] by (simp add: add_job_def)
  have a2: "fst (add_job jobs p line) = jobs" if "\<forall>k<MAX_JOBS. running (jobs ! k)"
    using that add_job_loop_full [of 0 jobs p line] by (simp add: add_job_def)
  have a3: "fst (add_job jobs p line) ! j = jobs ! j" if "running (jobs ! j)" for j
    by (rule add_job_cases [of jobs p line]) (use that assms in \<open>auto simp: nth_list_update\<close>)
  have a4: "\<exists>m. \<forall>j. j \<noteq> m \<longrightarrow> fst (add_job jobs p line) ! j = jobs ! j"
    by (rule add_job_cases [of jobs p line]) (simp_all add: list_update_one_slot)
  have m1: "fst (mark_job_done jobs q status) = jobs[i := (jobs ! i)\<lparr>running := False\<rparr>]"
    if "i < MAX_JOBS" "running (jobs ! i)" "pid (jobs ! i) = q"
      "\<forall>k<i. \<not> (running (jobs ! k) \<and> pid (jobs ! k) = q)"
    using that mark_job_done_loop_first [of 0 i jobs q status] by (simp add: mark_job_done_def)
  have m2: "fst (mark_job_done jobs q status) = jobs"
    if "\<forall>k<MAX_JOBS. \<not> (running (jobs ! k) \<and> pid (jobs ! k) = q)"
    using that mark_job_done_loop_none [of 0 jobs q status] by (simp add: mark_job_done_def)
  have m3: "\<exists>m. \<forall>j. j \<noteq> m \<longrightarrow> fst (mark_job_done jobs q status) ! j = jobs ! j"
    by (rule mark_job_done_cases [of jobs q status]) (simp_all add: list_update_one_slot)
  show ?thesis
    using a1 a2 a3 a4 m1 m2 m3 assms by simp
qed

theorem job_table_frame_witness:
  "fst (add_job (initial_jobs[0 := \<lparr>pid = 7, cmdline = ''a &'', running = True\<rparr>]) 9 ''b &'')
     = initial_jobs[0 := \<lparr>pid = 7, cmdline = ''a &'', running = True\<rparr>,
         1 := \<lparr>pid = 9, cmdline = ''b &'', running = True\<rparr>] \<and>
   fst (mark_job_done (initial_jobs[0 := \<lparr>pid = 7, cmdline = ''a &'', running = True\<rparr>]) 7
       (Exited 0))
     = initial_jobs[0 := \<lparr>pid = 7, cmdline = ''a &'', running = False\<rparr>]"
proof -
  let ?jobs = "initial_jobs[0 := \<lparr>pid = 7, cmdline = ''a &'', running = True\<rparr>]"
  have l: "length ?jobs = MAX_JOBS"
    by (simp add: initial_jobs_def)
  have h1: "1 < MAX_JOBS \<and> \<not> running (?jobs ! 1) \<and> (\<forall>k<1. running (?jobs ! k))"
    by (simp add: initial_jobs_def MAX_JOBS_def)
  have h2: "0 < MAX_JOBS \<and> running (?jobs ! 0) \<and> pid (?jobs ! 0) = 7 \<and>
      (\<forall>k<0. \<not> (running (?jobs ! k) \<and> pid (?jobs ! k) = 7))"
    by (simp add: initial_jobs_def MAX_JOBS_def)
  have s: "strncpy ''b &'' 511 = ''b &''"
    by (simp add: strncpy_def c_str_def NUL_def)
  show ?thesis
    using job_table_frame [OF l, of 1 9 "''b &''" 7 "Exited 0"]
      job_table_frame [OF l, of 0 9 "''b &''" 7 "Exited 0"] h1 h2 s
    by (simp add: initial_jobs_def MAX_JOBS_def)
qed

text \<open>
  C9. Whatever \<^verbatim>\<open>errno\<close> holds on entry and whatever the \<^verbatim>\<open>waitpid\<close> and output calls leave
  in it, the handler returns with the value it was entered with; and it does return as soon
  as one \<^verbatim>\<open>waitpid\<close> answer is not a positive pid.
\<close>

lemma reap_loop_returns:
  "\<exists>a\<in>set answers. wait_ret a \<le> 0 \<Longrightarrow> \<exists>s'. reap_loop s answers = Some s'"
  by (induction answers arbitrary: s) (auto simp: Let_def split: prod.splits)

theorem sigchld_handler_errno:
  "(sigchld_handler s answers = Some s' \<longrightarrow> errno s' = errno s) \<and>
   ((\<exists>a\<in>set answers. wait_ret a \<le> 0) \<longrightarrow>
      (\<exists>t. sigchld_handler s answers = Some t \<and> errno t = errno s))"
proof -
  have "errno s' = errno s" if "sigchld_handler s answers = Some s'" for s'
    using that by (auto simp: sigchld_handler_def Let_def split: option.splits)
  moreover have "\<exists>t. sigchld_handler s answers = Some t"
    if "\<exists>a\<in>set answers. wait_ret a \<le> 0"
    using reap_loop_returns [OF that, of s] by (auto simp: sigchld_handler_def Let_def)
  ultimately show ?thesis
    by blast
qed

theorem sigchld_handler_errno_witness:
  "(\<exists>t. sigchld_handler \<lparr>errno = 5,
        job_table = initial_jobs[0 := \<lparr>pid = 7, cmdline = ''a &'', running = True\<rparr>],
        printed = [], cwd = ''/'', fds = Map.empty\<rparr>
      [\<lparr>wait_ret = 7, wait_stat = Exited 0, wait_errno = 0, print_errno = 25\<rparr>,
       \<lparr>wait_ret = -1, wait_stat = OtherStatus, wait_errno = 10, print_errno = 10\<rparr>] = Some t \<and>
      errno t = 5)"
proof -
  let ?s = "\<lparr>errno = 5,
        job_table = initial_jobs[0 := \<lparr>pid = 7, cmdline = ''a &'', running = True\<rparr>],
        printed = [], cwd = ''/'', fds = Map.empty\<rparr>"
  let ?answers = "[\<lparr>wait_ret = 7, wait_stat = Exited 0, wait_errno = 0, print_errno = 25\<rparr>,
       \<lparr>wait_ret = -1, wait_stat = OtherStatus, wait_errno = 10, print_errno = 10\<rparr>]"
  have "\<exists>a\<in>set ?answers. wait_ret a \<le> 0"
    by simp
  then show ?thesis
    using sigchld_handler_errno [of ?s ?answers] by simp
qed

subsection \<open>Descriptor discipline of the executor (C2)\<close>

lemma is_pipe_end_simps [simp]:
  "\<not> is_pipe_end None" "is_pipe_end (Some (PipeRead i))" "is_pipe_end (Some (PipeWrite i))"
  "\<not> is_pipe_end (Some (Inherited n))" "\<not> is_pipe_end (Some (FileIn path))"
  "\<not> is_pipe_end (Some (FileOut path a))"
  by (simp_all add: is_pipe_end_def)

lemma lowest_free_Some: "lowest_free lim T = Some fd \<Longrightarrow> T fd = None \<and> 0 \<le> fd"
  by (auto simp: lowest_free_def find_Some_iff)

lemma lowest_free_least:
  assumes "lowest_free lim T = Some fd" and "0 \<le> j" and "j < fd"
  shows "T j \<noteq> None"
proof -
  obtain i where i: "i < lim" "fd = int i" "\<forall>m<i. T (int m) \<noteq> None"
    using assms(1) by (auto simp: lowest_free_def find_Some_iff)
  have "nat j < i" "int (nat j) = j"
    using assms(2,3) i(2) by auto
  then show ?thesis
    using i(3) by metis
qed

lemma sys_open_Some:
  "sys_open lim T obj = Some (fd, T') \<Longrightarrow> T fd = None \<and> 0 \<le> fd \<and> T' = T(fd \<mapsto> obj)"
  by (auto simp: sys_open_def dest: lowest_free_Some split: option.splits)

lemma sys_open_least:
  "sys_open lim T obj = Some (fd, T') \<Longrightarrow> 0 \<le> j \<Longrightarrow> j < fd \<Longrightarrow> T j \<noteq> None"
  by (auto simp: sys_open_def dest: lowest_free_least split: option.splits)

lemma sys_pipe_Some:
  assumes "sys_pipe env i T = Some ((r, w), T')"
  shows "T r = None \<and> T w = None \<and> 0 \<le> r \<and> r < w \<and>
         T' = T(r \<mapsto> PipeRead i, w \<mapsto> PipeWrite i)"
proof -
  obtain T1 where 1: "sys_open (nofile env) T (PipeRead i) = Some (r, T1)"
    and 2: "sys_open (nofile env) T1 (PipeWrite i) = Some (w, T')"
    using assms by (auto simp: sys_pipe_def split: if_splits option.splits)
  have f: "T r = None" "T w = None" "r \<noteq> w" "0 \<le> r" "0 \<le> w"
    "T' = T(r \<mapsto> PipeRead i, w \<mapsto> PipeWrite i)"
    using sys_open_Some [OF 1] sys_open_Some [OF 2] by (auto split: if_splits)
  have "\<not> w < r"
    using sys_open_least [OF 1, of w] f by auto
  then show ?thesis
    using f by simp
qed

text \<open>A redirection opens no pipe: a pipe end it leaves at a descriptor was there before.\<close>

lemma redirect_pipe_end:
  assumes "redirect env T allowed obj target = Some T'" and "\<not> is_pipe_end (Some obj)"
    and "is_pipe_end (T' fd)"
  shows "T' fd = T fd"
proof -
  obtain f T1 where o: "sys_open (nofile env) T obj = Some (f, T1)"
    and T': "T' = sys_close (sys_dup2 (nofile env) T1 f target) f"
    using assms(1) by (auto simp: redirect_def split: if_splits option.splits)
  have T1: "T1 = T(f \<mapsto> obj)"
    using sys_open_Some [OF o] by simp
  show ?thesis
    using assms(2,3) unfolding T' T1
    by (auto simp: sys_close_def sys_dup2_def split: if_splits)
qed

text \<open>The descriptors a child starts with, and what is left of the pipes when it is done.\<close>

lemma child_process_ok:
  assumes fork: "\<forall>fd. is_pipe_end (T fd) \<longrightarrow>
      (fd = prev \<and> fd \<noteq> -1 \<and> T fd = Some (PipeRead (k - 1)) \<and> 0 < k) \<or>
      (fd = r \<and> fd \<noteq> -1 \<and> T fd = Some (PipeRead k) \<and> k < n - 1) \<or>
      (fd = w \<and> fd \<noteq> -1 \<and> T fd = Some (PipeWrite k) \<and> k < n - 1)"
    and distinct: "prev = -1 \<or> (prev \<noteq> r \<and> prev \<noteq> w)" "w = -1 \<or> (w \<noteq> r \<and> 0 < w)"
  shows "child_ok n k (child_process env c prev (r, w) T)"
proof -
  define T1 where "T1 = (if prev \<noteq> -1
               then sys_close (sys_dup2 (nofile env) T prev 0) prev else T)"
  define T2 where "T2 = (if w \<noteq> -1
               then sys_close (sys_dup2 (nofile env) T1 w 1) w else T1)"
  have 1: "(fd = 0 \<and> T1 fd = Some (PipeRead (k - 1)) \<and> 0 < k) \<or>
      (fd = r \<and> fd \<noteq> -1 \<and> T1 fd = Some (PipeRead k) \<and> k < n - 1) \<or>
      (fd = w \<and> fd \<noteq> -1 \<and> T1 fd = Some (PipeWrite k) \<and> k < n - 1)"
    if "is_pipe_end (T1 fd)" for fd
    using that fork [rule_format, of fd] fork [rule_format, of prev] distinct
    by (auto simp: T1_def sys_close_def sys_dup2_def split: if_splits)
  have 2: "(fd = 0 \<and> T2 fd = Some (PipeRead (k - 1)) \<and> 0 < k) \<or>
      (fd = 1 \<and> T2 fd = Some (PipeWrite k) \<and> k < n - 1) \<or>
      (fd = r \<and> fd \<noteq> -1)"
    if "is_pipe_end (T2 fd)" for fd
    using that 1 [of fd] 1 [of w] distinct(2)
    by (auto simp: T2_def sys_close_def sys_dup2_def split: if_splits)
  have 5: "(fd = 0 \<and> T5 fd = Some (PipeRead (k - 1)) \<and> 0 < k) \<or>
      (fd = 1 \<and> T5 fd = Some (PipeWrite k) \<and> k < n - 1)"
    if T3: "(case infile c of None \<Rightarrow> Some T2
          | Some path \<Rightarrow> redirect env T2 (readable env path) (FileIn path) 0) = Some T3"
      and T4: "(case outfile c of None \<Rightarrow> Some T3
          | Some path \<Rightarrow> redirect env T3 (writable env path) (FileOut path (append c)) 1)
          = Some T4"
      and T5: "T5 = (if r \<noteq> -1 then sys_close T4 r else T4)"
      and p: "is_pipe_end (T5 fd)"
    for T3 T4 T5 fd
  proof -
    have r: "fd \<noteq> r \<or> r = -1" and p4: "is_pipe_end (T4 fd)" and e5: "T5 fd = T4 fd"
      using p by (auto simp: T5 sys_close_def split: if_splits)
    have e4: "T4 fd = T3 fd"
      using T4 p4 redirect_pipe_end [of env T3 _ _ 1 T4 fd] by (auto split: option.splits)
    then have p3: "is_pipe_end (T3 fd)"
      using p4 by simp
    have e3: "T3 fd = T2 fd"
      using T3 p3 redirect_pipe_end [of env T2 _ _ 0 T3 fd] by (auto split: option.splits)
    then have "is_pipe_end (T2 fd)"
      using p3 by simp
    then show ?thesis
      using 2 [of fd] r e3 e4 e5 by auto
  qed
  show ?thesis
    using 5 unfolding child_ok_def child_process_def Let_def fst_conv snd_conv
    by (fold T1_def, fold T2_def) (auto split: option.splits)
qed

text \<open>One iteration: the parent's descriptors afterwards, and the child forked in it.\<close>

lemma stage_setup:
  assumes inv: "parent_inv (i - 1) (0 < i) prev T"
    and made: "(if i < n - 1 then sys_pipe env i T else Some ((-1, -1), T)) = Some ((r, w), T1)"
  shows "parent_inv i (i < n - 1) r (parent_branch T1 prev (r, w))"
    and "child_ok n i (child_process env c prev (r, w) T1)"
proof -
  have pipes: "ok \<and> fd = prev \<and> T fd = Some (PipeRead (i - 1))" if "is_pipe_end (T fd)" "ok = (0 < i)" for fd ok
    using inv that unfolding parent_inv_def by blast
  have prev: "if 0 < i then prev \<noteq> -1 \<and> T prev = Some (PipeRead (i - 1)) else prev = -1"
    using inv unfolding parent_inv_def by blast
  show "parent_inv i (i < n - 1) r (parent_branch T1 prev (r, w))"
  proof (cases "i < n - 1")
    case True
    then have p: "T r = None" "T w = None" "0 \<le> r" "r < w"
      "T1 = T(r \<mapsto> PipeRead i, w \<mapsto> PipeWrite i)"
      using made sys_pipe_Some [of env i T r w T1] by simp_all
    show ?thesis
      using True p prev pipes unfolding parent_inv_def parent_branch_def Let_def sys_close_def
      by (auto split: if_splits)
  next
    case False
    then have p: "r = -1" "w = -1" "T1 = T"
      using made by simp_all
    show ?thesis
      using False p prev pipes unfolding parent_inv_def parent_branch_def Let_def sys_close_def
      by (auto split: if_splits)
  qed
  show "child_ok n i (child_process env c prev (r, w) T1)"
  proof (cases "i < n - 1")
    case True
    then have p: "T r = None" "T w = None" "0 \<le> r" "r < w"
      "T1 = T(r \<mapsto> PipeRead i, w \<mapsto> PipeWrite i)"
      using made sys_pipe_Some [of env i T r w T1] by simp_all
    show ?thesis
    proof (rule child_process_ok)
      show "\<forall>fd. is_pipe_end (T1 fd) \<longrightarrow>
          fd = prev \<and> fd \<noteq> - 1 \<and> T1 fd = Some (PipeRead (i - 1)) \<and> 0 < i \<or>
          fd = r \<and> fd \<noteq> - 1 \<and> T1 fd = Some (PipeRead i) \<and> i < n - 1 \<or>
          fd = w \<and> fd \<noteq> - 1 \<and> T1 fd = Some (PipeWrite i) \<and> i < n - 1"
        using True p prev pipes by (auto split: if_splits)
      show "prev = - 1 \<or> prev \<noteq> r \<and> prev \<noteq> w"
        using p prev by (auto split: if_splits)
      show "w = - 1 \<or> w \<noteq> r \<and> 0 < w"
        using p by auto
    qed
  next
    case False
    then have p: "r = -1" "w = -1" "T1 = T"
      using made by simp_all
    show ?thesis
    proof (rule child_process_ok)
      show "\<forall>fd. is_pipe_end (T1 fd) \<longrightarrow>
          fd = prev \<and> fd \<noteq> - 1 \<and> T1 fd = Some (PipeRead (i - 1)) \<and> 0 < i \<or>
          fd = r \<and> fd \<noteq> - 1 \<and> T1 fd = Some (PipeRead i) \<and> i < n - 1 \<or>
          fd = w \<and> fd \<noteq> - 1 \<and> T1 fd = Some (PipeWrite i) \<and> i < n - 1"
        using p prev pipes by (auto split: if_splits)
      show "prev = - 1 \<or> prev \<noteq> r \<and> prev \<noteq> w"
        using p prev by (auto split: if_splits)
      show "w = - 1 \<or> w \<noteq> r \<and> 0 < w"
        using p by auto
    qed
  qed
qed

text \<open>Unfolding the loop once.\<close>

lemma exec_stages_done:
  "\<not> i < length cmds \<Longrightarrow> exec_stages env cmds i prev T lp = ([], AllLaunched lp, T)"
  by (subst exec_stages.simps) simp

lemma exec_stages_pipe_failed:
  "i < length cmds \<Longrightarrow>
   (if i < length cmds - 1 then sys_pipe env i T else Some ((-1, -1), T)) = None \<Longrightarrow>
   exec_stages env cmds i prev T lp = ([], PipeFailed, T)"
  by (subst exec_stages.simps) simp

lemma exec_stages_fork_failed:
  "i < length cmds \<Longrightarrow>
   (if i < length cmds - 1 then sys_pipe env i T else Some ((-1, -1), T)) = Some (pipe_fd, T1) \<Longrightarrow>
   fork_pid env i = None \<Longrightarrow>
   exec_stages env cmds i prev T lp = ([], ForkFailed, T1)"
  by (subst exec_stages.simps) simp

lemma exec_stages_forked:
  "i < length cmds \<Longrightarrow>
   (if i < length cmds - 1 then sys_pipe env i T else Some ((-1, -1), T)) = Some (pipe_fd, T1) \<Longrightarrow>
   fork_pid env i = Some p \<Longrightarrow>
   exec_stages env cmds i prev T lp =
     (\<lparr>child = child_process env (cmds ! i) prev pipe_fd T1, child_pid = p,
       parent_fds = parent_branch T1 prev pipe_fd, parent_prev_fd = fst pipe_fd\<rparr>
        # fst (exec_stages env cmds (i + 1) (fst pipe_fd) (parent_branch T1 prev pipe_fd) p),
      snd (exec_stages env cmds (i + 1) (fst pipe_fd) (parent_branch T1 prev pipe_fd) p))"
  by (subst exec_stages.simps) (simp split: prod.splits)

lemma exec_stages_step:
  assumes "exec_stages env cmds i prev T lp = (reports, result)" and "reports \<noteq> []"
  obtains pipe_fd T1 p where "i < length cmds"
    and "(if i < length cmds - 1 then sys_pipe env i T else Some ((-1, -1), T))
          = Some (pipe_fd, T1)"
    and "fork_pid env i = Some p"
    and "exec_stages env cmds (i + 1) (fst pipe_fd) (parent_branch T1 prev pipe_fd) p
          = (tl reports, result)"
    and "hd reports = \<lparr>child = child_process env (cmds ! i) prev pipe_fd T1, child_pid = p,
           parent_fds = parent_branch T1 prev pipe_fd, parent_prev_fd = fst pipe_fd\<rparr>"
proof (cases "i < length cmds")
  case False
  then show ?thesis
    using assms exec_stages_done [OF False, of env prev T lp] by simp
next
  case i: True
  show ?thesis
  proof (cases "if i < length cmds - 1 then sys_pipe env i T else Some ((-1, -1), T)")
    case None
    then show ?thesis
      using assms exec_stages_pipe_failed [OF i None, of prev lp] by simp
  next
    case (Some a)
    obtain pipe_fd T1 where a: "a = (pipe_fd, T1)"
      by (cases a)
    show ?thesis
    proof (cases "fork_pid env i")
      case None
      then show ?thesis
        using assms exec_stages_fork_failed [OF i Some [unfolded a] None, of prev lp] by simp
    next
      case (Some p)
      show ?thesis
        using assms exec_stages_forked [OF i \<open>_ = Some a\<close> [unfolded a] Some, of prev lp]
          that [OF i \<open>_ = Some a\<close> [unfolded a] Some]
        by (cases "exec_stages env cmds (i + 1) (fst pipe_fd) (parent_branch T1 prev pipe_fd) p")
          auto
    qed
  qed
qed

lemma exec_stages_discipline:
  assumes "parent_inv (i - 1) (0 < i \<and> i < length cmds) prev T"
    and "exec_stages env cmds i prev T lp = (reports, result)"
    and "k < length reports"
  shows "parent_inv (i + k) (i + k < length cmds - 1)
           (parent_prev_fd (reports ! k)) (parent_fds (reports ! k)) \<and>
         child_ok (length cmds) (i + k) (child (reports ! k))"
  using assms
proof (induction k arbitrary: i prev T lp reports)
  case 0
  have ne: "reports \<noteq> []"
    using "0.prems"(3) by auto
  from "0.prems"(2) ne show ?case
  proof (rule exec_stages_step)
    fix pipe_fd T1 p
    assume i: "i < length cmds"
      and made: "(if i < length cmds - 1 then sys_pipe env i T else Some ((-1, -1), T))
          = Some (pipe_fd, T1)"
      and hd: "hd reports = \<lparr>child = child_process env (cmds ! i) prev pipe_fd T1, child_pid = p,
           parent_fds = parent_branch T1 prev pipe_fd, parent_prev_fd = fst pipe_fd\<rparr>"
    have inv: "parent_inv (i - 1) (0 < i) prev T"
      using "0.prems"(1) i by simp
    have made': "(if i < length cmds - 1 then sys_pipe env i T else Some ((-1, -1), T))
          = Some ((fst pipe_fd, snd pipe_fd), T1)"
      using made by simp
    show ?thesis
      using stage_setup(1) [OF inv made'] stage_setup(2) [where c = "cmds ! i", OF inv made']
        hd ne by (simp add: hd_conv_nth)
  qed
next
  case (Suc k)
  have ne: "reports \<noteq> []"
    using Suc.prems(3) by auto
  from Suc.prems(2) ne show ?case
  proof (rule exec_stages_step)
    fix pipe_fd T1 p
    assume i: "i < length cmds"
      and made: "(if i < length cmds - 1 then sys_pipe env i T else Some ((-1, -1), T))
          = Some (pipe_fd, T1)"
      and rec: "exec_stages env cmds (i + 1) (fst pipe_fd) (parent_branch T1 prev pipe_fd) p
          = (tl reports, result)"
    have inv: "parent_inv (i - 1) (0 < i) prev T"
      using Suc.prems(1) i by simp
    have made': "(if i < length cmds - 1 then sys_pipe env i T else Some ((-1, -1), T))
          = Some ((fst pipe_fd, snd pipe_fd), T1)"
      using made by simp
    have "parent_inv i (i < length cmds - 1) (fst pipe_fd) (parent_branch T1 prev pipe_fd)"
      using stage_setup(1) [OF inv made'] by simp
    moreover have "(i < length cmds - 1) = (0 < i + 1 \<and> i + 1 < length cmds)"
      by auto
    ultimately have inv': "parent_inv (i + 1 - 1) (0 < i + 1 \<and> i + 1 < length cmds)
        (fst pipe_fd) (parent_branch T1 prev pipe_fd)"
      by simp
    have k: "k < length (tl reports)"
      using Suc.prems(3) by simp
    have "tl reports ! k = reports ! Suc k"
      using ne by (cases reports) simp_all
    then show ?thesis
      using Suc.IH [OF inv' rec k] by simp
  qed
qed

text \<open>When the loop runs to its end, every stage was set up and \<open>last_pid\<close> is the pid of
  the child forked last.\<close>

lemma exec_stages_launched:
  "exec_stages env cmds i prev T lp = (reports, AllLaunched q, T') \<Longrightarrow>
   length reports = length cmds - i \<and> q = (if reports = [] then lp else child_pid (last reports))"
proof (induction reports arbitrary: i prev T lp)
  case Nil
  show ?case
  proof (cases "i < length cmds")
    case False
    then show ?thesis
      using Nil exec_stages_done [OF False, of env prev T lp] by simp
  next
    case i: True
    show ?thesis
    proof (cases "if i < length cmds - 1 then sys_pipe env i T else Some ((-1, -1), T)")
      case None
      then show ?thesis
        using Nil exec_stages_pipe_failed [OF i None, of prev lp] by simp
    next
      case (Some a)
      obtain pipe_fd T1 where a: "a = (pipe_fd, T1)"
        by (cases a)
      show ?thesis
      proof (cases "fork_pid env i")
        case None
        then show ?thesis
          using Nil exec_stages_fork_failed [OF i Some [unfolded a] None, of prev lp] by simp
      next
        case (Some p)
        then show ?thesis
          using Nil exec_stages_forked [OF i \<open>_ = Some a\<close> [unfolded a] Some, of prev lp] by simp
      qed
    qed
  qed
next
  case (Cons rep reports)
  have ne: "rep # reports \<noteq> []"
    by simp
  from Cons.prems ne show ?case
  proof (rule exec_stages_step)
    fix pipe_fd T1 p
    assume i: "i < length cmds"
      and rec: "exec_stages env cmds (i + 1) (fst pipe_fd) (parent_branch T1 prev pipe_fd) p
          = (tl (rep # reports), AllLaunched q, T')"
      and hd: "hd (rep # reports) = \<lparr>child = child_process env (cmds ! i) prev pipe_fd T1,
           child_pid = p, parent_fds = parent_branch T1 prev pipe_fd,
           parent_prev_fd = fst pipe_fd\<rparr>"
    have "length reports = length cmds - (i + 1) \<and>
        q = (if reports = [] then p else child_pid (last reports))"
      using Cons.IH [of "i + 1" "fst pipe_fd" "parent_branch T1 prev pipe_fd" p] rec by simp
    then show ?thesis
      using i hd by auto
  qed
qed

text \<open>
  C2. Start the stage loop on descriptors that hold no pipe end (the pipes of this pipeline
  do not exist yet). After stage \<open>k\<close> is set up, the only pipe end among the parent's
  descriptors is the read end of pipe \<open>k\<close>, kept in \<open>prev_fd\<close> for the next stage, and after the
  last stage the parent holds none. A child that reaches \<^verbatim>\<open>execvp\<close> as stage \<open>k\<close> holds no
  pipe end but the read end of pipe \<open>k - 1\<close> as descriptor 0 and the write end of pipe \<open>k\<close> as
  descriptor 1. So the write end of pipe \<open>k\<close> is held by the child of stage \<open>k\<close> alone, and its
  reader sees end-of-stream once that child is gone. When the loop runs to its end, all
  stages were set up.
\<close>

theorem pipeline_descriptor_discipline:
  assumes "\<forall>fd. \<not> is_pipe_end (T fd)"
    and "exec_stages env cmds 0 (-1) T (-1) = (reports, result, T')"
    and "k < length reports"
  shows
    "(\<forall>fd. is_pipe_end (parent_fds (reports ! k) fd) \<longrightarrow>
        k < length cmds - 1 \<and> fd = parent_prev_fd (reports ! k) \<and>
        parent_fds (reports ! k) fd = Some (PipeRead k)) \<and>
     (if k < length cmds - 1
      then parent_fds (reports ! k) (parent_prev_fd (reports ! k)) = Some (PipeRead k)
      else parent_prev_fd (reports ! k) = -1) \<and>
     (\<forall>args Tc fd. child (reports ! k) = ChildExecs args Tc \<and> is_pipe_end (Tc fd) \<longrightarrow>
        (fd = 0 \<and> Tc fd = Some (PipeRead (k - 1)) \<and> 0 < k) \<or>
        (fd = 1 \<and> Tc fd = Some (PipeWrite k) \<and> k < length cmds - 1)) \<and>
     (\<forall>j args Tc fd. j < length reports \<and> child (reports ! j) = ChildExecs args Tc \<and>
        Tc fd = Some (PipeWrite k) \<longrightarrow> j = k \<and> fd = 1) \<and>
     (\<forall>j fd. j < length reports \<longrightarrow> parent_fds (reports ! j) fd \<noteq> Some (PipeWrite k)) \<and>
     (\<forall>q. result = AllLaunched q \<longrightarrow> length reports = length cmds)"
proof -
  have start: "parent_inv (0 - 1) ((0::nat) < 0 \<and> 0 < length cmds) (-1) T"
    using assms(1) by (simp add: parent_inv_def)
  have stage: "parent_inv j (j < length cmds - 1)
           (parent_prev_fd (reports ! j)) (parent_fds (reports ! j)) \<and>
         child_ok (length cmds) j (child (reports ! j))"
    if "j < length reports" for j
    using exec_stages_discipline [OF start assms(2) that] by simp
  have parent: "j < length cmds - 1 \<and> fd = parent_prev_fd (reports ! j) \<and>
        parent_fds (reports ! j) fd = Some (PipeRead j)"
    if "j < length reports" "is_pipe_end (parent_fds (reports ! j) fd)" for j fd
    using stage [OF that(1)] that(2) unfolding parent_inv_def by blast
  have kept: "if k < length cmds - 1
      then parent_fds (reports ! k) (parent_prev_fd (reports ! k)) = Some (PipeRead k)
      else parent_prev_fd (reports ! k) = -1"
    using stage [OF assms(3)] unfolding parent_inv_def by (auto split: if_splits)
  have child: "(fd = 0 \<and> Tc fd = Some (PipeRead (j - 1)) \<and> 0 < j) \<or>
        (fd = 1 \<and> Tc fd = Some (PipeWrite j) \<and> j < length cmds - 1)"
    if "j < length reports" "child (reports ! j) = ChildExecs args Tc" "is_pipe_end (Tc fd)"
    for j args Tc fd
    using stage [OF that(1)] that(2,3) unfolding child_ok_def by simp
  have writer: "j = k \<and> fd = 1"
    if "j < length reports" "child (reports ! j) = ChildExecs args Tc"
      "Tc fd = Some (PipeWrite k)" for j args Tc fd
    using child [OF that(1,2), of fd] that(3) by auto
  have no_write: "parent_fds (reports ! j) fd \<noteq> Some (PipeWrite k)"
    if "j < length reports" for j fd
    using parent [OF that, of fd] by auto
  have all: "length reports = length cmds" if "result = AllLaunched q" for q
    using exec_stages_launched [of env cmds 0 "-1" T "-1" reports q T'] assms(2) that by simp
  show ?thesis
  proof (intro conjI allI impI)
    fix fd assume "is_pipe_end (parent_fds (reports ! k) fd)"
    then show "k < length cmds - 1" "fd = parent_prev_fd (reports ! k)"
      "parent_fds (reports ! k) fd = Some (PipeRead k)"
      using parent [OF assms(3)] by simp_all
  next
    show "if k < length cmds - 1
      then parent_fds (reports ! k) (parent_prev_fd (reports ! k)) = Some (PipeRead k)
      else parent_prev_fd (reports ! k) = -1"
      by (rule kept)
  next
    fix args Tc fd
    assume "child (reports ! k) = ChildExecs args Tc \<and> is_pipe_end (Tc fd)"
    then show "(fd = 0 \<and> Tc fd = Some (PipeRead (k - 1)) \<and> 0 < k) \<or>
        (fd = 1 \<and> Tc fd = Some (PipeWrite k) \<and> k < length cmds - 1)"
      using child [OF assms(3), of args Tc fd] by simp
  next
    fix j args Tc fd
    assume "j < length reports \<and> child (reports ! j) = ChildExecs args Tc \<and>
        Tc fd = Some (PipeWrite k)"
    then show "j = k" "fd = 1"
      using writer [of j args Tc fd] by simp_all
  next
    fix j fd assume "j < length reports"
    then show "parent_fds (reports ! j) fd \<noteq> Some (PipeWrite k)"
      by (rule no_write)
  next
    fix q assume "result = AllLaunched q"
    then show "length reports = length cmds"
      by (rule all)
  qed
qed

theorem pipeline_descriptor_discipline_witness:
  "length (fst (exec_stages example_env [stage [''a''], stage [''b''], stage [''c'']]
      0 (-1) std_fds (-1))) = 3 \<and>
   parent_prev_fd (fst (exec_stages example_env [stage [''a''], stage [''b''], stage [''c'']]
      0 (-1) std_fds (-1)) ! 1) = 4 \<and>
   parent_fds (fst (exec_stages example_env [stage [''a''], stage [''b''], stage [''c'']]
      0 (-1) std_fds (-1)) ! 1) 4 = Some (PipeRead 1) \<and>
   \<not> is_pipe_end (parent_fds (fst (exec_stages example_env
      [stage [''a''], stage [''b''], stage [''c'']] 0 (-1) std_fds (-1)) ! 1) 3) \<and>
   \<not> is_pipe_end (parent_fds (fst (exec_stages example_env
      [stage [''a''], stage [''b''], stage [''c'']] 0 (-1) std_fds (-1)) ! 1) 5)"
proof -
  let ?cmds = "[stage [''a''], stage [''b''], stage [''c'']]"
  obtain reports result T' where
    run: "exec_stages example_env ?cmds 0 (-1) std_fds (-1) = (reports, result, T')"
    by (cases "exec_stages example_env ?cmds 0 (-1) std_fds (-1)")
  have no_pipes: "\<forall>fd. \<not> is_pipe_end (std_fds fd)"
    by (simp add: std_fds_def)
  have "length (fst (exec_stages example_env ?cmds 0 (-1) std_fds (-1))) = 3"
    by code_simp
  then have len: "length reports = 3"
    unfolding run by simp
  have "parent_prev_fd (fst (exec_stages example_env ?cmds 0 (-1) std_fds (-1)) ! 1) = 4"
    by code_simp
  then have prev: "parent_prev_fd (reports ! 1) = 4"
    unfolding run by simp
  have k: "1 < length reports"
    using len by simp
  note th = pipeline_descriptor_discipline [OF no_pipes run k]
  have only: "is_pipe_end (parent_fds (reports ! 1) fd) \<Longrightarrow> fd = 4" for fd
    using th [THEN conjunct1] prev by simp
  have kept: "parent_fds (reports ! 1) 4 = Some (PipeRead 1)"
    using th [THEN conjunct2, THEN conjunct1] prev by simp
  have "\<not> is_pipe_end (parent_fds (reports ! 1) 3)" "\<not> is_pipe_end (parent_fds (reports ! 1) 5)"
    using only [of 3] only [of 5] by auto
  then show ?thesis
    using len prev kept by (simp add: run)
qed

text \<open>
  The error returns of the loop close nothing. In \<^verbatim>\<open>a | b\<close> with the first \<^verbatim>\<open>fork\<close>
  failing, \<^verbatim>\<open>execute_pipeline\<close> returns with both ends of the new pipe open in the shell; they
  stay open in the shell and in the children of later pipelines. The statement above is
  about the stages that were set up and about the pipes of the pipeline at hand.
\<close>

lemma fork_failure_keeps_pipe:
  "snd (exec_stages (example_env\<lparr>fork_pid := (\<lambda>i. None)\<rparr>) [stage [''a''], stage [''b'']]
      0 (-1) std_fds (-1)) = (ForkFailed, std_fds(3 \<mapsto> PipeRead 0, 4 \<mapsto> PipeWrite 0))"
proof -
  let ?env = "example_env\<lparr>fork_pid := (\<lambda>i. None)\<rparr>"
  have l: "lowest_free 16 std_fds = Some 3"
    "lowest_free 16 (std_fds(3 \<mapsto> PipeRead 0)) = Some 4"
    by (simp_all add: lowest_free_def std_fds_def upt_rec)
  have "sys_pipe ?env 0 std_fds = Some ((3, 4), std_fds(3 \<mapsto> PipeRead 0, 4 \<mapsto> PipeWrite 0))"
    by (simp add: sys_pipe_def sys_open_def example_env_def l)
  then show ?thesis
    using exec_stages_fork_failed [of 0 "[stage [''a''], stage [''b'']]" ?env std_fds "(3, 4)"
        "std_fds(3 \<mapsto> PipeRead 0, 4 \<mapsto> PipeWrite 0)" "-1" "-1"]
    by (simp add: example_env_def)
qed

subsection \<open>Builtin dispatch (C1)\<close>

lemma run_builtin_NotBuiltin:
  "run_builtin env s c = NotBuiltin \<longleftrightarrow> \<not> (argv c \<noteq> [] \<and> is_builtin_name (hd (argv c)))"
  by (auto simp: run_builtin_def is_builtin_name_def split: list.splits option.splits)

lemma execute_pipeline_not_builtin:
  assumes "(if length cmds = 1 then run_builtin env s (cmds ! 0) else NotBuiltin) = NotBuiltin"
  shows "\<exists>reports result final.
    execute_pipeline env s cmds background line = ExecPipeline reports result final"
  using assms unfolding execute_pipeline_def
  by (auto split: prod.splits launch.splits)

text \<open>
  C1, amended. A parsed pipeline is run by the builtin dispatcher inside the shell exactly
  when it has one stage whose first argument is \<open>cd\<close>, \<open>exit\<close> or \<open>jobs\<close>, whatever its
  redirection targets and background flag; every other pipeline is passed to the executor,
  which enters its stage loop.
\<close>

theorem builtin_dispatch:
  "(handled_in_shell (dispatch env s cmds background line) \<longleftrightarrow>
      length cmds = 1 \<and> argv (cmds ! 0) \<noteq> [] \<and> is_builtin_name (hd (argv (cmds ! 0)))) \<and>
   (passed_to_executor (dispatch env s cmds background line) \<longleftrightarrow>
      \<not> (length cmds = 1 \<and> argv (cmds ! 0) \<noteq> [] \<and> is_builtin_name (hd (argv (cmds ! 0)))))"
proof (cases "(if length cmds = 1 then run_builtin env s (cmds ! 0) else NotBuiltin)")
  case NotBuiltin
  then have n: "\<not> (length cmds = 1 \<and> argv (cmds ! 0) \<noteq> [] \<and> is_builtin_name (hd (argv (cmds ! 0))))"
    using run_builtin_NotBuiltin [of env s "cmds ! 0"] by (auto split: if_splits)
  obtain reports result final where
    "execute_pipeline env s cmds background line = ExecPipeline reports result final"
    using execute_pipeline_not_builtin [OF NotBuiltin] by blast
  then show ?thesis
    using NotBuiltin n by (simp add: dispatch_def handled_in_shell_def passed_to_executor_def)
next
  case (BuiltinDone s')
  then have "length cmds = 1 \<and> argv (cmds ! 0) \<noteq> [] \<and> is_builtin_name (hd (argv (cmds ! 0)))"
    using run_builtin_NotBuiltin [of env s "cmds ! 0"] by (auto split: if_splits)
  then show ?thesis
    using BuiltinDone by (simp add: dispatch_def handled_in_shell_def passed_to_executor_def)
next
  case (ProcessExit n)
  then have "length cmds = 1 \<and> argv (cmds ! 0) \<noteq> [] \<and> is_builtin_name (hd (argv (cmds ! 0)))"
    using run_builtin_NotBuiltin [of env s "cmds ! 0"] by (auto split: if_splits)
  then show ?thesis
    using ProcessExit by (simp add: dispatch_def handled_in_shell_def passed_to_executor_def)
qed

theorem builtin_dispatch_witness:
  "handled_in_shell (dispatch example_env example_shell [stage [''jobs'']] False ''jobs'') \<and>
   passed_to_executor (dispatch example_env example_shell [stage [''ls'']] False ''ls'') \<and>
   passed_to_executor (dispatch example_env example_shell
     [stage [''cd'', ''/tmp''], stage [''wc'']] False ''cd /tmp | wc'')"
  using builtin_dispatch [of example_env example_shell "[stage [''jobs'']]" False "''jobs''"]
    builtin_dispatch [of example_env example_shell "[stage [''ls'']]" False "''ls''"]
    builtin_dispatch [of example_env example_shell "[stage [''cd'', ''/tmp''], stage [''wc'']]"
      False "''cd /tmp | wc''"]
  by (simp add: stage_def is_builtin_name_def)

text \<open>
  C1 as stated fails for a single builtin with a redirection: \<^verbatim>\<open>cd /tmp > out\<close> parses to
  one stage with an output target, and the shell changes its own directory; the line never
  reaches \<^verbatim>\<open>execute_pipeline\<close>.
\<close>

theorem builtin_dispatch_counterexample:
  "parse_commands (tokenize ''cd /tmp > out'' (int MAX_TOKENS))
     = Parsed [\<lparr>argv = [''cd'', ''/tmp''], infile = None, outfile = Some ''out'',
         append = False\<rparr>] False \<and>
   shell_line example_env example_shell ''cd /tmp > out''
     = LineBuiltin (example_shell\<lparr>cwd := ''/tmp''\<rparr>) \<and>
   \<not> passed_to_executor (shell_line example_env example_shell ''cd /tmp > out'')"
proof -
  have t: "tokenize ''cd /tmp > out'' (int MAX_TOKENS) = [''cd'', ''/tmp'', ''>'', ''out'']"
    by code_simp
  have p: "parse_commands [''cd'', ''/tmp'', ''>'', ''out'']
     = Parsed [\<lparr>argv = [''cd'', ''/tmp''], infile = None, outfile = Some ''out'',
         append = False\<rparr>] False"
    by (simp add: parse_commands_def empty_cmd_def MAX_TOKENS_def)
  have l: "shell_line example_env example_shell ''cd /tmp > out''
     = LineBuiltin (example_shell\<lparr>cwd := ''/tmp''\<rparr>)"
    by (simp add: shell_line_def c_str_def NUL_def run_tokens_def t p dispatch_def
        run_builtin_def example_env_def example_shell_def)
  show ?thesis
    by (simp add: t p l passed_to_executor_def)
qed

subsection \<open>Too many pipeline stages (C8)\<close>














subsection \<open>Background jobs (C6)\<close>

lemma execute_pipeline_background:
  assumes "execute_pipeline env s cmds True line = ExecPipeline reports (AllLaunched q) final"
  shows "\<exists>T'. exec_stages env cmds 0 (-1) (fds s) (-1) = (reports, AllLaunched q, T') \<and>
    final = Some (s\<lparr>fds := T', job_table := fst (add_job (job_table s) q line),
      printed := printed s @ snd (add_job (job_table s) q line)\<rparr>)"
proof -
  obtain rs res T' where run: "exec_stages env cmds 0 (-1) (fds s) (-1) = (rs, res, T')"
    by (cases "exec_stages env cmds 0 (-1) (fds s) (-1)")
  have nb: "(if length cmds = 1 then run_builtin env s (cmds ! 0) else NotBuiltin) = NotBuiltin"
    using assms unfolding execute_pipeline_def by (auto split: builtin_result.splits)
  show ?thesis
    using assms unfolding execute_pipeline_def nb run
    by (cases res) (auto split: prod.splits)
qed

text \<open>
  C6, amended. When a pipeline of at least one stage has been launched in the background,
  every stage was set up, and \<^verbatim>\<open>execute_pipeline\<close> returns with the job table that \<open>add_job\<close>
  makes for the pid of the stage forked last and the command line: the first slot that is
  not running holds that pid and the first 511 characters of the command line and is marked
  running, and its index plus one is printed with the pid; if every slot is running, the
  table is unchanged and \<open>job list full\<close> is printed. The stages set up are the same in both
  cases.
\<close>

theorem background_job_recorded:
  assumes "execute_pipeline env s cmds True line = ExecPipeline reports (AllLaunched q) final"
    and "cmds \<noteq> []"
  shows "\<exists>s'. final = Some s' \<and>
    reports = fst (exec_stages env cmds 0 (-1) (fds s) (-1)) \<and>
    length reports = length cmds \<and> q = child_pid (last reports) \<and>
    (\<forall>i. i < MAX_JOBS \<and> \<not> running (job_table s ! i) \<and> (\<forall>k<i. running (job_table s ! k)) \<longrightarrow>
       job_table s' = (job_table s)
         [i := \<lparr>pid = q, cmdline = take 511 (c_str line), running = True\<rparr>] \<and>
       printed s' = printed s @ [JobStarted (i + 1) q]) \<and>
    ((\<forall>k<MAX_JOBS. running (job_table s ! k)) \<longrightarrow>
       job_table s' = job_table s \<and> printed s' = printed s @ [JobListFull])"
proof -
  obtain T' where run: "exec_stages env cmds 0 (-1) (fds s) (-1) = (reports, AllLaunched q, T')"
    and final: "final = Some (s\<lparr>fds := T', job_table := fst (add_job (job_table s) q line),
      printed := printed s @ snd (add_job (job_table s) q line)\<rparr>)"
    using execute_pipeline_background [OF assms(1)] by blast
  have len: "length reports = length cmds" and q: "q = child_pid (last reports)"
    using exec_stages_launched [OF run] assms(2) by auto
  have free: "add_job (job_table s) q line =
      ((job_table s)[i := \<lparr>pid = q, cmdline = take 511 (c_str line), running = True\<rparr>],
       [JobStarted (i + 1) q])"
    if "i < MAX_JOBS" "\<not> running (job_table s ! i)" "\<forall>k<i. running (job_table s ! k)" for i
    using that add_job_loop_first [of 0 i "job_table s" q line]
    by (simp add: add_job_def strncpy_def)
  have full: "add_job (job_table s) q line = (job_table s, [JobListFull])"
    if "\<forall>k<MAX_JOBS. running (job_table s ! k)"
    using that add_job_loop_full [of 0 "job_table s" q line] by (simp add: add_job_def)
  show ?thesis
    unfolding final
  proof (intro exI conjI allI impI)
    show "Some (s\<lparr>fds := T', job_table := fst (add_job (job_table s) q line),
        printed := printed s @ snd (add_job (job_table s) q line)\<rparr>) = Some
        (s\<lparr>fds := T', job_table := fst (add_job (job_table s) q line),
        printed := printed s @ snd (add_job (job_table s) q line)\<rparr>)"
      by (rule refl)
  qed (auto simp: run len q [symmetric] free full)
qed

theorem background_job_recorded_witness:
  "saved_cmdline (execute_pipeline example_env example_shell
      [stage [''sleep'', ''9''], stage [''wc'']] True ''sleep 9 | wc &'') 0
     = Some ''sleep 9 | wc &''"
proof -
  let ?cmds = "[stage [''sleep'', ''9''], stage [''wc'']]"
  obtain reports q final where
    run: "execute_pipeline example_env example_shell ?cmds True ''sleep 9 | wc &''
      = ExecPipeline reports (AllLaunched q) final"
  proof -
    have "case execute_pipeline example_env example_shell ?cmds True ''sleep 9 | wc &'' of
        ExecPipeline reports (AllLaunched q) final \<Rightarrow> True | _ \<Rightarrow> False"
      by code_simp
    then show ?thesis
      using that by (auto split: exec_result.splits launch.splits)
  qed
  have free: "0 < MAX_JOBS \<and> \<not> running (job_table example_shell ! 0) \<and>
      (\<forall>k<0. running (job_table example_shell ! k))"
    by (simp add: example_shell_def initial_jobs_def MAX_JOBS_def)
  have c: "take 511 (c_str ''sleep 9 | wc &'') = ''sleep 9 | wc &''"
    by (simp add: c_str_def NUL_def)
  obtain s' where final: "final = Some s'"
    and "job_table s' = (job_table example_shell)
         [0 := \<lparr>pid = q, cmdline = take 511 (c_str ''sleep 9 | wc &''), running = True\<rparr>]"
    using background_job_recorded [OF run] free by blast
  then have "cmdline (job_table s' ! 0) = ''sleep 9 | wc &''"
    using c by (simp add: example_shell_def initial_jobs_def MAX_JOBS_def)
  then show ?thesis
    by (simp add: saved_cmdline_def run final)
qed

text \<open>
  C6 as stated fails for a command line of more than 511 characters: the slot keeps 511
  of the 609 characters of \<^verbatim>\<open>sleep 9\<close>, 600 blanks and \<^verbatim>\<open> &\<close>.
\<close>

theorem background_job_recorded_counterexample:
  "saved_cmdline (execute_pipeline example_env example_shell [stage [''sleep'', ''9'']] True
      (''sleep 9'' @ replicate 600 (CHR '' '') @ '' &'')) 0
     = Some (''sleep 9'' @ replicate 504 (CHR '' '')) \<and>
   ''sleep 9'' @ replicate 504 (CHR '' '') \<noteq> ''sleep 9'' @ replicate 600 (CHR '' '') @ '' &''"
  by code_simp

subsection \<open>Allocation failure in the tokenizer (C5)\<close>

text \<open>With every allocation succeeding this is \<open>tokenize\<close>.\<close>

lemma tokenize_alloc_loop_ok:
  "tokenize_alloc_loop (\<lambda>k. True) mx p (map Some toks) = Tokens (map Some (tokenize_loop mx p toks))"
proof (induction mx p toks rule: tokenize_loop.induct)
  case (1 mx p toks)
  show ?case
  proof (cases "p \<noteq> [] \<and> int (length toks) < mx - 1")
    case False
    then show ?thesis
      by (subst tokenize_alloc_loop.simps, subst tokenize_loop.simps) auto
  next
    case True
    show ?thesis
    proof (cases "dropWhile is_space p")
      case Nil
      show ?thesis
        using True
        by (subst tokenize_alloc_loop.simps, subst tokenize_loop.simps)
          (simp add: Nil del: dropWhile_eq_Nil_conv)
    next
      case (Cons c cs)
      show ?thesis
      proof (cases "is_operator_char c")
        case op: True
        show ?thesis
        proof (cases "c = CHR ''>'' \<and> (case cs of [] \<Rightarrow> False | d # _ \<Rightarrow> d = CHR ''>'')")
          case gg: True
          have "tokenize_alloc_loop (\<lambda>k. True) mx p (map Some toks)
              = tokenize_alloc_loop (\<lambda>k. True) mx (tl cs) (map Some (toks @ [''>>'']))"
            using True Cons op gg by (subst tokenize_alloc_loop.simps) simp
          moreover have "tokenize_loop mx p toks = tokenize_loop mx (tl cs) (toks @ [''>>''])"
            using True Cons op gg by (subst tokenize_loop.simps) simp
          ultimately show ?thesis
            using "1.IH"(1) [OF True Cons op gg] by simp
        next
          case g: False
          have "tokenize_alloc_loop (\<lambda>k. True) mx p (map Some toks)
              = tokenize_alloc_loop (\<lambda>k. True) mx cs (map Some (toks @ [[c]]))"
            using True Cons op g by (subst tokenize_alloc_loop.simps) auto
          moreover have "tokenize_loop mx p toks = tokenize_loop mx cs (toks @ [[c]])"
            using True Cons op g by (subst tokenize_loop.simps) auto
          ultimately show ?thesis
            using "1.IH"(2) [OF True Cons op g] by simp
        qed
      next
        case nop: False
        obtain w rest where sw: "scan_word False NUL (c # cs) = (w, rest)"
          by (cases "scan_word False NUL (c # cs)")
        have "tokenize_alloc_loop (\<lambda>k. True) mx p (map Some toks)
            = tokenize_alloc_loop (\<lambda>k. True) mx rest (map Some (toks @ [strip_quotes w]))"
          using True Cons nop sw by (subst tokenize_alloc_loop.simps) simp
        moreover have "tokenize_loop mx p toks = tokenize_loop mx rest (toks @ [strip_quotes w])"
          using True Cons nop sw by (subst tokenize_loop.simps) simp
        ultimately show ?thesis
          using "1.IH"(3) [OF True Cons nop sw [symmetric]] by simp
      qed
    qed
  qed
qed

lemma tokenize_alloc_ok:
  "tokenize_alloc (\<lambda>k. True) line mx = Tokens (map Some (tokenize line mx))"
  using tokenize_alloc_loop_ok [of mx "c_str line" "[]"] by (simp add: tokenize_alloc_def tokenize_def)

text \<open>
  C5 at the failing input. On the line \<^verbatim>\<open>a\<close>, with the copy of the line allocated and the
  \<^verbatim>\<open>malloc\<close> for the word failing, the run does not return an empty result: it writes
  through the NULL pointer. On the line \<^verbatim>\<open>|\<close>, with \<^verbatim>\<open>strdup\<close> failing for the operator, one
  token is returned, a NULL pointer. Only a failure of the first allocation gives the empty
  result.
\<close>

theorem tokenize_allocation_failure:
  "tokenize_alloc (\<lambda>k. k = 0) ''a'' (int MAX_TOKENS) = NullWrite \<and>
   tokenize_alloc (\<lambda>k. k = 0) ''|'' (int MAX_TOKENS) = Tokens [None] \<and>
   tokenize_alloc (\<lambda>k. False) ''a'' (int MAX_TOKENS) = Tokens []"
  by code_simp

end
